theory Spec2Isabelle
  imports Main "HOL-Library.Sublist"
begin

section \<open>Shared JavaScript helpers\<close>

text \<open>
  \<open>Array.prototype.indexOf\<close>: the index of the first element identical to the argument,
  \<open>-1\<close> when there is none.
\<close>

fun indexOf :: "'a list \<Rightarrow> 'a \<Rightarrow> int" where
  "indexOf [] x = -1"
| "indexOf (y # ys) x =
     (if y = x then 0 else (let i = indexOf ys x in if i = -1 then -1 else i + 1))"

text \<open>\<open>arr.splice(i, 1)\<close>: removes the element at index \<open>i\<close>.\<close>

definition splice1 :: "nat \<Rightarrow> 'a list \<Rightarrow> 'a list" where
  "splice1 i xs = take i xs @ drop (Suc i) xs"

section \<open>FocusTrapManager (class \<open>FocusTrapManager\<close> in src/cdk/a11y/focus-trap/polyfill.ts)\<close>

text \<open>
  A \<open>ManagedFocusTrap\<close> is an object reference; the manager only calls \<open>_enable()\<close> and
  \<open>_disable()\<close> on it. A trap is modelled by its identity, and the store \<open>trapEnabled\<close>
  records for every trap whether its last such call was \<open>_enable()\<close>; \<open>enable_trap ft\<close> and
  \<open>disable_trap ft\<close> are the calls \<open>ft._enable()\<close> and \<open>ft._disable()\<close>.
\<close>

type_synonym trap = nat

record FocusTrapManager =
  focusTrapStack :: "trap list"
  trapEnabled :: "trap \<Rightarrow> bool"

definition enable_trap :: "trap \<Rightarrow> FocusTrapManager \<Rightarrow> FocusTrapManager" where
  "enable_trap ft m = m\<lparr>trapEnabled := (trapEnabled m)(ft := True)\<rparr>"

definition disable_trap :: "trap \<Rightarrow> FocusTrapManager \<Rightarrow> FocusTrapManager" where
  "disable_trap ft m = m\<lparr>trapEnabled := (trapEnabled m)(ft := False)\<rparr>"

definition register :: "trap \<Rightarrow> FocusTrapManager \<Rightarrow> FocusTrapManager" where
  "register focusTrap m =
     (let m1 = m\<lparr>focusTrapStack := filter (\<lambda>ft. ft \<noteq> focusTrap) (focusTrapStack m)\<rparr>;
          m2 = (if focusTrapStack m1 \<noteq> []
                then disable_trap (last (focusTrapStack m1)) m1 else m1);
          m3 = m2\<lparr>focusTrapStack := focusTrapStack m2 @ [focusTrap]\<rparr>
      in enable_trap focusTrap m3)"

definition deregister :: "trap \<Rightarrow> FocusTrapManager \<Rightarrow> FocusTrapManager" where
  "deregister focusTrap m =
     (let m1 = disable_trap focusTrap m;
          i = indexOf (focusTrapStack m1) focusTrap
      in if i \<noteq> -1
         then (let m2 = m1\<lparr>focusTrapStack := splice1 (nat i) (focusTrapStack m1)\<rparr>
               in if focusTrapStack m2 \<noteq> []
                  then enable_trap (last (focusTrapStack m2)) m2 else m2)
         else m1)"

text \<open>The calls a client can make on the manager, and their effect in sequence.\<close>

datatype managerCall = Register trap | Deregister trap

fun applyCall :: "managerCall \<Rightarrow> FocusTrapManager \<Rightarrow> FocusTrapManager" where
  "applyCall (Register t) m = register t m"
| "applyCall (Deregister t) m = deregister t m"

fun applyCalls :: "managerCall list \<Rightarrow> FocusTrapManager \<Rightarrow> FocusTrapManager" where
  "applyCalls [] m = m"
| "applyCalls (c # cs) m = applyCalls cs (applyCall c m)"

text \<open>A freshly injected manager: the stack is empty; the traps are in any state.\<close>

definition newManager :: "(trap \<Rightarrow> bool) \<Rightarrow> FocusTrapManager" where
  "newManager en = \<lparr>focusTrapStack = [], trapEnabled = en\<rparr>"

text \<open>The traps of the stack that are enabled, in stack order.\<close>

definition enabledInStack :: "FocusTrapManager \<Rightarrow> trap list" where
  "enabledInStack m = filter (trapEnabled m) (focusTrapStack m)"

text \<open>
  The representation invariant: no trap occurs twice, the top (the last element) is enabled
  and every trap below it is disabled.
\<close>

definition stackInv :: "FocusTrapManager \<Rightarrow> bool" where
  "stackInv m \<longleftrightarrow>
     distinct (focusTrapStack m) \<and>
     (focusTrapStack m \<noteq> [] \<longrightarrow> trapEnabled m (last (focusTrapStack m))) \<and>
     (\<forall>t \<in> set (butlast (focusTrapStack m)). \<not> trapEnabled m t)"

section \<open>FocusMonitor (class \<open>FocusMonitor\<close> in src/cdk/a11y/focus-monitor/focus-monitor.ts)\<close>

text \<open>
  \<open>FocusOrigin\<close> is \<open>'touch' | 'mouse' | 'keyboard' | 'program' | null\<close>; \<open>null\<close> is
  \<open>None\<close>.
\<close>

datatype Origin = Touch | Mouse | Keyboard | Program

type_synonym FocusOrigin = "Origin option"

text \<open>
  The DOM is an external collaborator. A node is identified by its position in the tree: the
  list of child indices leading to it from the root. \<open>a.contains(b)\<close> holds when \<open>b\<close> is
  \<open>a\<close> or a descendant of \<open>a\<close>, that is, when the position of \<open>a\<close> is a prefix of the
  position of \<open>b\<close>. An event target that is not a \<open>Node\<close> (the window, say) fails every
  \<open>instanceof Node\<close> test.
\<close>

type_synonym node = "nat list"

definition contains :: "node \<Rightarrow> node \<Rightarrow> bool" where
  "contains a b = prefix a b"

datatype eventTarget = DomNode node | NonNode

datatype FocusMonitorDetectionMode = IMMEDIATE | EVENTUAL

text \<open>
  The fields of \<open>FocusMonitor\<close> that decide the origin of a focus event. The three timeouts
  the listeners arm are kept as the transitions their callbacks perform
  (\<open>originTimeout\<close>, \<open>touchTimeout\<close>, \<open>windowFocusTimeout\<close>).
\<close>

record FocusMonitor =
  origin :: FocusOrigin
  lastFocusOrigin :: FocusOrigin
  windowFocused :: bool
  lastTouchTarget :: "eventTarget option"
  detectionMode :: FocusMonitorDetectionMode

definition newFocusMonitor :: "FocusMonitorDetectionMode \<Rightarrow> FocusMonitor" where
  "newFocusMonitor mode =
     \<lparr>origin = None, lastFocusOrigin = None, windowFocused = False,
      lastTouchTarget = None, detectionMode = mode\<rparr>"

definition setOriginForCurrentEventQueue :: "FocusOrigin \<Rightarrow> FocusMonitor \<Rightarrow> FocusMonitor" where
  "setOriginForCurrentEventQueue orig m = m\<lparr>origin := orig\<rparr>"

definition originTimeout :: "FocusMonitor \<Rightarrow> FocusMonitor" where
  "originTimeout m = m\<lparr>origin := None\<rparr>"

definition touchTimeout :: "FocusMonitor \<Rightarrow> FocusMonitor" where
  "touchTimeout m = m\<lparr>lastTouchTarget := None\<rparr>"

definition windowFocusTimeout :: "FocusMonitor \<Rightarrow> FocusMonitor" where
  "windowFocusTimeout m = m\<lparr>windowFocused := False\<rparr>"

definition documentKeydownListener :: "FocusMonitor \<Rightarrow> FocusMonitor" where
  "documentKeydownListener m =
     setOriginForCurrentEventQueue (Some Keyboard) (m\<lparr>lastTouchTarget := None\<rparr>)"

text \<open>
  The argument \<open>fake\<close> is the result of \<open>isFakeMousedownFromScreenReader(event)\<close>, a helper
  of another file.
\<close>

definition documentMousedownListener :: "bool \<Rightarrow> FocusMonitor \<Rightarrow> FocusMonitor" where
  "documentMousedownListener fake m =
     (if lastTouchTarget m = None
      then setOriginForCurrentEventQueue (Some (if fake then Keyboard else Mouse)) m
      else m)"

definition documentTouchstartListener :: "eventTarget option \<Rightarrow> FocusMonitor \<Rightarrow> FocusMonitor" where
  "documentTouchstartListener target m = m\<lparr>lastTouchTarget := target\<rparr>"

definition windowFocusListener :: "FocusMonitor \<Rightarrow> FocusMonitor" where
  "windowFocusListener m = m\<lparr>windowFocused := True\<rparr>"

text \<open>
  \<open>_wasCausedByTouch(event)\<close> and \<open>_getFocusOrigin(event)\<close>; the argument \<open>focusTarget\<close>
  is \<open>getTarget(event)\<close>.
\<close>

definition wasCausedByTouch :: "FocusMonitor \<Rightarrow> eventTarget option \<Rightarrow> bool" where
  "wasCausedByTouch m focusTarget =
     (case lastTouchTarget m of
        Some (DomNode t) \<Rightarrow>
          (case focusTarget of
             Some (DomNode f) \<Rightarrow> f = t \<or> contains f t
           | _ \<Rightarrow> False)
      | _ \<Rightarrow> False)"

definition getFocusOrigin :: "FocusMonitor \<Rightarrow> eventTarget option \<Rightarrow> FocusOrigin" where
  "getFocusOrigin m focusTarget =
     (if origin m \<noteq> None then origin m
      else if windowFocused m \<and> lastFocusOrigin m \<noteq> None then lastFocusOrigin m
      else if wasCausedByTouch m focusTarget then Some Touch
      else Some Program)"

section \<open>FocusTrap (class \<open>FocusTrap\<close> in src/unnamed/part_000)\<close>

text \<open>
  The nodes that can stand beside the region element under its parent: the two anchors of
  this trap and any other sibling. A trap holds at most one start anchor and one end anchor,
  so the anchors are identified by their role.
\<close>

datatype domNode = StartAnchor | EndAnchor | Sibling nat

text \<open>What \<open>_createAnchor()\<close> and \<open>addEventListener('focus', ...)\<close> set on an anchor.\<close>

record anchorElement =
  tabindex :: "string option"
  classList :: "string list"
  ariaHidden :: "string option"
  focusListener :: bool

text \<open>
  \<open>elementParent\<close> is \<open>None\<close> when \<open>_element.parentNode\<close> is \<open>null\<close>; otherwise it holds
  the children of the parent that precede the region element and those that follow it, in
  document order.
\<close>

record FocusTrap =
  startAnchor :: "anchorElement option"
  endAnchor :: "anchorElement option"
  hasAttached :: bool
  enabled :: bool
  elementParent :: "(domNode list \<times> domNode list) option"

definition toggleAnchorTabIndex :: "bool \<Rightarrow> anchorElement \<Rightarrow> anchorElement" where
  "toggleAnchorTabIndex isEnabled anchor =
     (if isEnabled then anchor\<lparr>tabindex := Some ''0''\<rparr> else anchor\<lparr>tabindex := None\<rparr>)"

definition createAnchor :: "FocusTrap \<Rightarrow> anchorElement" where
  "createAnchor t =
     (let anchor = \<lparr>tabindex = None, classList = [], ariaHidden = None, focusListener = False\<rparr>;
          anchor1 = toggleAnchorTabIndex (enabled t) anchor;
          anchor2 = anchor1\<lparr>classList := classList anchor1 @ [''cdk-visually-hidden'']\<rparr>;
          anchor3 = anchor2\<lparr>classList := classList anchor2 @ [''cdk-focus-trap-anchor'']\<rparr>
      in anchor3\<lparr>ariaHidden := Some ''true''\<rparr>)"

text \<open>
  \<open>parent.insertBefore(n, element)\<close> moves \<open>n\<close> from wherever it is to the place right
  before the region element; \<open>parent.insertBefore(n, element.nextSibling)\<close> moves it to the
  place right after the region element (at the end of the parent when there is no next
  sibling).
\<close>

definition insertBeforeElement :: "domNode \<Rightarrow> domNode list \<times> domNode list \<Rightarrow> domNode list \<times> domNode list" where
  "insertBeforeElement n p = (removeAll n (fst p) @ [n], removeAll n (snd p))"

definition insertBeforeNextSibling :: "domNode \<Rightarrow> domNode list \<times> domNode list \<Rightarrow> domNode list \<times> domNode list" where
  "insertBeforeNextSibling n p = (removeAll n (fst p), n # removeAll n (snd p))"

definition attachAnchors :: "FocusTrap \<Rightarrow> bool \<times> FocusTrap" where
  "attachAnchors t =
     (if hasAttached t then (True, t)
      else
        (let t1 = (if startAnchor t = None
                   then t\<lparr>startAnchor := Some ((createAnchor t)\<lparr>focusListener := True\<rparr>)\<rparr>
                   else t);
             t2 = (if endAnchor t1 = None
                   then t1\<lparr>endAnchor := Some ((createAnchor t1)\<lparr>focusListener := True\<rparr>)\<rparr>
                   else t1);
             t3 = (case elementParent t2 of
                     Some p \<Rightarrow>
                       t2\<lparr>elementParent :=
                            Some (insertBeforeNextSibling EndAnchor (insertBeforeElement StartAnchor p)),
                          hasAttached := True\<rparr>
                   | None \<Rightarrow> t2)
         in (hasAttached t3, t3)))"

text \<open>The anchors of this trap that are in the DOM, in document order.\<close>

definition isAnchor :: "domNode \<Rightarrow> bool" where
  "isAnchor n \<longleftrightarrow> n = StartAnchor \<or> n = EndAnchor"

definition attachedAnchors :: "FocusTrap \<Rightarrow> domNode list" where
  "attachedAnchors t =
     (case elementParent t of
        None \<Rightarrow> []
      | Some p \<Rightarrow> filter isAnchor (fst p) @ filter isAnchor (snd p))"

text \<open>Calling \<open>attachAnchors()\<close> \<open>n\<close> times in a row; the state after the last call.\<close>

fun attachAnchorsTimes :: "nat \<Rightarrow> FocusTrap \<Rightarrow> FocusTrap" where
  "attachAnchorsTimes 0 t = t"
| "attachAnchorsTimes (Suc n) t = attachAnchorsTimes n (snd (attachAnchors t))"

section \<open>ListKeyManager (class \<open>ListKeyManager\<close> in src/cdk/a11y/key-manager/list-key-manager.ts)\<close>

subsection \<open>JavaScript values and operators the manager relies on\<close>

datatype jsError = TypeError | Error string

text \<open>
  \<open>a % b\<close> on integers: the remainder takes the sign of the dividend; \<open>None\<close> is \<open>NaN\<close>
  (division by zero).
\<close>

definition jsRem :: "int \<Rightarrow> int \<Rightarrow> int option" where
  "jsRem a b = (if b = 0 then None else Some (sgn a * (\<bar>a\<bar> mod \<bar>b\<bar>)))"

text \<open>\<open>arr[i]\<close>: \<open>None\<close> is \<open>undefined\<close>, the value read outside the array.\<close>

definition itemAt :: "'a list \<Rightarrow> int \<Rightarrow> 'a option" where
  "itemAt xs i = (if 0 \<le> i \<and> i < int (length xs) then Some (xs ! nat i) else None)"

text \<open>
  A JavaScript string is its sequence of UTF-16 code units: \<open>length\<close> counts them,
  \<open>indexOf\<close> compares them and \<open>join('')\<close> appends them. \<open>codeUnits\<close> gives the code units
  of an ASCII literal, and \<open>String.fromCharCode(n)\<close> is the string of the one code unit
  \<open>n mod 65536\<close>.
\<close>

type_synonym jsString = "nat list"

definition codeUnits :: "string \<Rightarrow> jsString" where
  "codeUnits str = map of_char str"

definition fromCharCode :: "nat \<Rightarrow> jsString" where
  "fromCharCode n = [n mod 65536]"

text \<open>
  \<open>toUpperCase\<close>, \<open>toLocaleUpperCase\<close> and \<open>trim\<close> are built-in methods of the JavaScript
  engine: ECMAScript, the Unicode tables and the locale fix them, not this repository. They
  are parameters of the model. A value of this record is the three methods of one engine,
  and every property below that depends on strings is proved for every such value.
\<close>

record stringMethods =
  toUpperCase :: "jsString \<Rightarrow> jsString"
  toLocaleUpperCase :: "jsString \<Rightarrow> jsString"
  trim :: "jsString \<Rightarrow> jsString"

text \<open>
  The key codes imported from \<open>@angular/cdk/keycodes\<close>, with the values that package
  gives them; \<open>A_KEY\<close> and \<open>Z_KEY\<close> are its \<open>A\<close> and \<open>Z\<close>.
\<close>

definition TAB :: nat where "TAB = 9"
definition END :: nat where "END = 35"
definition HOME :: nat where "HOME = 36"
definition LEFT_ARROW :: nat where "LEFT_ARROW = 37"
definition UP_ARROW :: nat where "UP_ARROW = 38"
definition RIGHT_ARROW :: nat where "RIGHT_ARROW = 39"
definition DOWN_ARROW :: nat where "DOWN_ARROW = 40"
definition ZERO :: nat where "ZERO = 48"
definition NINE :: nat where "NINE = 57"
definition A_KEY :: nat where "A_KEY = 65"
definition Z_KEY :: nat where "Z_KEY = 90"

subsection \<open>Items, events and the manager's state\<close>

text \<open>
  An item is an object: \<open>ident\<close> is its identity, \<open>disabled\<close> its optional flag (absent
  counts as false), \<open>getLabel\<close> the string its \<open>getLabel()\<close> returns, \<open>None\<close> when the item
  has no such method.
\<close>

record ListKeyManagerOption =
  ident :: nat
  disabled :: bool
  getLabel :: "jsString option"

datatype ListKeyManagerModifierKey = AltKey | CtrlKey | MetaKey | ShiftKey

datatype direction = Ltr | Rtl

record KeyboardEvent =
  keyCode :: nat
  key :: jsString
  altKey :: bool
  ctrlKey :: bool
  metaKey :: bool
  shiftKey :: bool

fun eventModifier :: "KeyboardEvent \<Rightarrow> ListKeyManagerModifierKey \<Rightarrow> bool" where
  "eventModifier event AltKey = altKey event"
| "eventModifier event CtrlKey = ctrlKey event"
| "eventModifier event MetaKey = metaKey event"
| "eventModifier event ShiftKey = shiftKey event"

text \<open>
  The private fields of the class. \<open>typeaheadSubscription\<close> is \<open>None\<close> for
  \<open>Subscription.EMPTY\<close> and otherwise the debounce interval of the live subscription;
  \<open>tabOut\<close> counts the emissions of the \<open>tabOut\<close> stream and \<open>change\<close> lists the values
  emitted on the \<open>change\<close> stream, oldest first.
\<close>

record ListKeyManager =
  items :: "ListKeyManagerOption list"
  activeItemIndex :: int
  activeItem :: "ListKeyManagerOption option"
  wrap :: bool
  vertical :: bool
  horizontal :: "direction option"
  allowedModifierKeys :: "ListKeyManagerModifierKey list"
  homeAndEnd :: bool
  skipPredicateFn :: "ListKeyManagerOption \<Rightarrow> bool"
  pressedLetters :: "jsString list"
  typeaheadSubscription :: "nat option"
  tabOut :: nat
  change :: "int list"

definition newListKeyManager :: "ListKeyManagerOption list \<Rightarrow> ListKeyManager" where
  "newListKeyManager its =
     \<lparr>items = its, activeItemIndex = -1, activeItem = None, wrap = False, vertical = True,
      horizontal = None, allowedModifierKeys = [], homeAndEnd = False,
      skipPredicateFn = disabled, pressedLetters = [], typeaheadSubscription = None,
      tabOut = 0, change = []\<rparr>"

subsection \<open>Setting the active item\<close>

text \<open>The argument of \<open>setActiveItem\<close> and \<open>updateActiveItem\<close>: an index or an item.\<close>

datatype itemOrIndex = Index int | Item ListKeyManagerOption

definition updateActiveItem :: "itemOrIndex \<Rightarrow> ListKeyManager \<Rightarrow> ListKeyManager" where
  "updateActiveItem item s =
     (let itemArray = items s;
          index = (case item of Index n \<Rightarrow> n | Item it \<Rightarrow> indexOf itemArray it)
      in s\<lparr>activeItem := itemAt itemArray index, activeItemIndex := index\<rparr>)"

definition setActiveItem :: "itemOrIndex \<Rightarrow> ListKeyManager \<Rightarrow> ListKeyManager" where
  "setActiveItem item s =
     (let previousActiveItem = activeItem s;
          s1 = updateActiveItem item s
      in if activeItem s1 \<noteq> previousActiveItem
         then s1\<lparr>change := change s1 @ [activeItemIndex s1]\<rparr>
         else s1)"

text \<open>The type \<open>-1 | 1\<close> of the direction arguments.\<close>

datatype delta = DeltaMinus | DeltaPlus

fun deltaInt :: "delta \<Rightarrow> int" where
  "deltaInt DeltaMinus = -1"
| "deltaInt DeltaPlus = 1"

text \<open>
  \<open>_setActiveItemByIndex\<close>: the test \<open>!items[index]\<close> before the loop and the one at the end
  of the loop body are the first branch; the loop condition is the second.
\<close>

function setActiveItemByIndex :: "int \<Rightarrow> delta \<Rightarrow> ListKeyManager \<Rightarrow> ListKeyManager" where
  "setActiveItemByIndex index fallbackDelta s =
     (case itemAt (items s) index of
        None \<Rightarrow> s
      | Some item \<Rightarrow>
          if skipPredicateFn s item
          then setActiveItemByIndex (index + deltaInt fallbackDelta) fallbackDelta s
          else setActiveItem (Index index) s)"
  by pat_completeness auto
termination
proof (relation "measure (\<lambda>(index, fallbackDelta, s).
    case fallbackDelta of
      DeltaPlus \<Rightarrow> nat (int (length (items s)) - index)
    | DeltaMinus \<Rightarrow> nat (index + 1))")
  show "wf (measure (\<lambda>(index, fallbackDelta, s).
    case fallbackDelta of
      DeltaPlus \<Rightarrow> nat (int (length (items s)) - index)
    | DeltaMinus \<Rightarrow> nat (index + 1)))"
    by simp
next
  fix index :: int and fallbackDelta :: delta and s :: ListKeyManager and x2
  assume "itemAt (items s) index = Some x2"
  then have "0 \<le> index \<and> index < int (length (items s))"
    by (simp add: itemAt_def split: if_splits)
  then show "((index + deltaInt fallbackDelta, fallbackDelta, s), index, fallbackDelta, s)
    \<in> measure (\<lambda>(index, fallbackDelta, s).
        case fallbackDelta of
          DeltaPlus \<Rightarrow> nat (int (length (items s)) - index)
        | DeltaMinus \<Rightarrow> nat (index + 1))"
    by (cases fallbackDelta) auto
qed

definition setFirstItemActive :: "ListKeyManager \<Rightarrow> ListKeyManager" where
  "setFirstItemActive s = setActiveItemByIndex 0 DeltaPlus s"

definition setLastItemActive :: "ListKeyManager \<Rightarrow> ListKeyManager" where
  "setLastItemActive s = setActiveItemByIndex (int (length (items s)) - 1) DeltaMinus s"

text \<open>
  The loop of \<open>_setActiveInWrapMode\<close>, over the values \<open>1, ..., items.length\<close> of \<open>i\<close>.
  Reading outside the array gives \<open>undefined\<close>, on which the skip predicate
  \<open>item => item.disabled\<close> throws a \<open>TypeError\<close>.
\<close>

fun wrapLoop :: "delta \<Rightarrow> nat list \<Rightarrow> ListKeyManager \<Rightarrow> jsError + ListKeyManager" where
  "wrapLoop d [] s = Inr s"
| "wrapLoop d (i # is) s =
     (case jsRem (activeItemIndex s + deltaInt d * int i + int (length (items s)))
             (int (length (items s))) of
        None \<Rightarrow> Inl TypeError
      | Some index \<Rightarrow>
          (case itemAt (items s) index of
             None \<Rightarrow> Inl TypeError
           | Some item \<Rightarrow>
               if \<not> skipPredicateFn s item
               then Inr (setActiveItem (Index index) s)
               else wrapLoop d is s))"

definition setActiveInWrapMode :: "delta \<Rightarrow> ListKeyManager \<Rightarrow> jsError + ListKeyManager" where
  "setActiveInWrapMode d s = wrapLoop d [1..<Suc (length (items s))] s"

definition setActiveInDefaultMode :: "delta \<Rightarrow> ListKeyManager \<Rightarrow> ListKeyManager" where
  "setActiveInDefaultMode d s = setActiveItemByIndex (activeItemIndex s + deltaInt d) d s"

definition setActiveItemByDelta :: "delta \<Rightarrow> ListKeyManager \<Rightarrow> jsError + ListKeyManager" where
  "setActiveItemByDelta d s =
     (if wrap s then setActiveInWrapMode d s else Inr (setActiveInDefaultMode d s))"

definition setNextItemActive :: "ListKeyManager \<Rightarrow> jsError + ListKeyManager" where
  "setNextItemActive s =
     (if activeItemIndex s < 0 then Inr (setFirstItemActive s)
      else setActiveItemByDelta DeltaPlus s)"

definition setPreviousItemActive :: "ListKeyManager \<Rightarrow> jsError + ListKeyManager" where
  "setPreviousItemActive s =
     (if activeItemIndex s < 0 \<and> wrap s then Inr (setLastItemActive s)
      else setActiveItemByDelta DeltaMinus s)"

subsection \<open>Typeahead\<close>

text \<open>
  \<open>ngDevMode\<close> is a global of the framework: \<open>None\<close> when it is undefined, otherwise its
  truth value. The result \<open>Inl\<close> is the \<open>throw\<close>: it comes before any assignment, so the
  manager stays as it was.
\<close>

definition withTypeAhead :: "bool option \<Rightarrow> nat \<Rightarrow> ListKeyManager \<Rightarrow> jsError + ListKeyManager" where
  "withTypeAhead ngDevMode debounceInterval s =
     (if (ngDevMode = None \<or> ngDevMode = Some True) \<and>
         (items s \<noteq> [] \<and> list_ex (\<lambda>item. getLabel item = None) (items s))
      then Inl (Error ''ListKeyManager items in typeahead mode must implement the `getLabel` method.'')
      else Inr (s\<lparr>typeaheadSubscription := Some debounceInterval\<rparr>))"

text \<open>\<open>label.toUpperCase().trim().indexOf(inputString) === 0\<close>\<close>

definition labelMatches :: "stringMethods \<Rightarrow> jsString \<Rightarrow> jsString \<Rightarrow> bool" where
  "labelMatches sm label inputString = prefix inputString (trim sm (toUpperCase sm label))"

text \<open>
  The search loop of the typeahead subscriber, over the values \<open>1, ..., items.length\<close> of
  \<open>i\<close>. Calling \<open>getLabel\<close> on an item without that method throws a \<open>TypeError\<close>.
\<close>

fun typeaheadLoop ::
  "stringMethods \<Rightarrow> jsString \<Rightarrow> nat list \<Rightarrow> ListKeyManager \<Rightarrow> jsError + ListKeyManager" where
  "typeaheadLoop sm inputString [] s = Inr s"
| "typeaheadLoop sm inputString (i # is) s =
     (case jsRem (activeItemIndex s + int i) (int (length (items s))) of
        None \<Rightarrow> Inl TypeError
      | Some index \<Rightarrow>
          (case itemAt (items s) index of
             None \<Rightarrow> Inl TypeError
           | Some item \<Rightarrow>
               if skipPredicateFn s item then typeaheadLoop sm inputString is s
               else
                 (case getLabel item of
                    None \<Rightarrow> Inl TypeError
                  | Some label \<Rightarrow>
                      if labelMatches sm label inputString
                      then Inr (setActiveItem (Index index) s)
                      else typeaheadLoop sm inputString is s)))"

definition typeaheadSubscriber ::
  "stringMethods \<Rightarrow> jsString \<Rightarrow> ListKeyManager \<Rightarrow> jsError + ListKeyManager" where
  "typeaheadSubscriber sm inputString s =
     (case typeaheadLoop sm inputString [1..<length (items s) + 1] s of
        Inl e \<Rightarrow> Inl e
      | Inr s1 \<Rightarrow> Inr (s1\<lparr>pressedLetters := []\<rparr>))"

text \<open>
  \<open>_letterKeyStream.next(letter)\<close>: with a live subscription the \<open>tap\<close> operator pushes the
  letter at once; the rest of the pipe runs when the debounce interval has elapsed, which is
  the transition \<open>typeaheadDebounceElapsed\<close>.
\<close>

definition letterKeyStreamNext :: "jsString \<Rightarrow> ListKeyManager \<Rightarrow> ListKeyManager" where
  "letterKeyStreamNext letter s =
     (if typeaheadSubscription s \<noteq> None
      then s\<lparr>pressedLetters := pressedLetters s @ [letter]\<rparr>
      else s)"

definition typeaheadDebounceElapsed ::
  "stringMethods \<Rightarrow> ListKeyManager \<Rightarrow> jsError + ListKeyManager" where
  "typeaheadDebounceElapsed sm s =
     (if typeaheadSubscription s = None then Inr s
      else if length (pressedLetters s) > 0
      then typeaheadSubscriber sm (concat (pressedLetters s)) s
      else Inr s)"

subsection \<open>Key events\<close>

definition isModifierAllowed :: "KeyboardEvent \<Rightarrow> ListKeyManager \<Rightarrow> bool" where
  "isModifierAllowed event s =
     list_all (\<lambda>modifier. \<not> eventModifier event modifier \<or>
                 indexOf (allowedModifierKeys s) modifier > -1)
       [AltKey, CtrlKey, MetaKey, ShiftKey]"

text \<open>
  The statements after the \<open>switch\<close>: the buffer of pressed letters is cleared and
  \<open>event.preventDefault()\<close> is called.
\<close>

definition afterSwitch :: "jsError + ListKeyManager \<Rightarrow> jsError + (ListKeyManager \<times> bool)" where
  "afterSwitch r =
     (case r of Inl e \<Rightarrow> Inl e | Inr s \<Rightarrow> Inr (s\<lparr>pressedLetters := []\<rparr>, True))"

text \<open>
  \<open>onKeydown(event)\<close>. The boolean of the result tells whether \<open>event.preventDefault()\<close>
  was called. \<open>hasModifierKey(event, 'shiftKey')\<close> of \<open>@angular/cdk/keycodes\<close> is
  \<open>event.shiftKey\<close>. An absent \<open>event.key\<close> is the empty string: both fail the test
  \<open>event.key && event.key.length === 1\<close>.
\<close>

definition onKeydown ::
  "stringMethods \<Rightarrow> KeyboardEvent \<Rightarrow> ListKeyManager \<Rightarrow> jsError + (ListKeyManager \<times> bool)" where
  "onKeydown sm event s =
     (let allowed = isModifierAllowed event s in
      if keyCode event = TAB then Inr (s\<lparr>tabOut := tabOut s + 1\<rparr>, False)
      else if keyCode event = DOWN_ARROW then
        (if vertical s \<and> allowed then afterSwitch (setNextItemActive s) else Inr (s, False))
      else if keyCode event = UP_ARROW then
        (if vertical s \<and> allowed then afterSwitch (setPreviousItemActive s) else Inr (s, False))
      else if keyCode event = RIGHT_ARROW then
        (if horizontal s \<noteq> None \<and> allowed
         then afterSwitch (if horizontal s = Some Rtl then setPreviousItemActive s
                           else setNextItemActive s)
         else Inr (s, False))
      else if keyCode event = LEFT_ARROW then
        (if horizontal s \<noteq> None \<and> allowed
         then afterSwitch (if horizontal s = Some Rtl then setNextItemActive s
                           else setPreviousItemActive s)
         else Inr (s, False))
      else if keyCode event = HOME then
        (if homeAndEnd s \<and> allowed then afterSwitch (Inr (setFirstItemActive s))
         else Inr (s, False))
      else if keyCode event = END then
        (if homeAndEnd s \<and> allowed then afterSwitch (Inr (setLastItemActive s))
         else Inr (s, False))
      else
        (if allowed \<or> shiftKey event
         then (if length (key event) = 1
               then Inr (letterKeyStreamNext (toLocaleUpperCase sm (key event)) s, False)
               else if (A_KEY \<le> keyCode event \<and> keyCode event \<le> Z_KEY) \<or>
                       (ZERO \<le> keyCode event \<and> keyCode event \<le> NINE)
               then Inr (letterKeyStreamNext (fromCharCode (keyCode event)) s, False)
               else Inr (s, False))
         else Inr (s, False)))"

subsection \<open>Notions used to state the properties\<close>

text \<open>
  The active item is \<open>null\<close>, or a member of the item collection that the skip predicate
  does not skip.
\<close>

definition activeItemInv :: "ListKeyManager \<Rightarrow> bool" where
  "activeItemInv s \<longleftrightarrow>
     (case activeItem s of
        None \<Rightarrow> True
      | Some item \<Rightarrow> item \<in> set (items s) \<and> \<not> skipPredicateFn s item)"



text \<open>A key event the manager handles as navigation in its current configuration.\<close>

definition handledNavigationKey :: "KeyboardEvent \<Rightarrow> ListKeyManager \<Rightarrow> bool" where
  "handledNavigationKey event s \<longleftrightarrow>
     isModifierAllowed event s \<and>
     ((keyCode event = DOWN_ARROW \<or> keyCode event = UP_ARROW) \<and> vertical s \<or>
      (keyCode event = RIGHT_ARROW \<or> keyCode event = LEFT_ARROW) \<and> horizontal s \<noteq> None \<or>
      (keyCode event = HOME \<or> keyCode event = END) \<and> homeAndEnd s)"

declare setActiveItemByIndex.simps [simp del]


text \<open>
  String methods for ASCII text, used to run the definitions on examples. On a string of
  ASCII code units they return what ECMAScript prescribes (for \<open>toLocaleUpperCase\<close>, in a
  locale with no special casing of ASCII letters): \<open>a\<close>..\<open>z\<close> become \<open>A\<close>..\<open>Z\<close>, and tab,
  line feed, vertical tab, form feed, carriage return and space are trimmed. Code units
  above 127 are left as they are, so these are not the methods of an engine on other text;
  the examples hold ASCII text only.
\<close>

definition asciiUpperUnit :: "nat \<Rightarrow> nat" where
  "asciiUpperUnit c = (if 97 \<le> c \<and> c \<le> 122 then c - 32 else c)"

definition asciiWhiteSpace :: "nat \<Rightarrow> bool" where
  "asciiWhiteSpace c \<longleftrightarrow> (9 \<le> c \<and> c \<le> 13) \<or> c = 32"

definition asciiMethods :: stringMethods where
  "asciiMethods =
     \<lparr>toUpperCase = map asciiUpperUnit,
      toLocaleUpperCase = map asciiUpperUnit,
      trim = (\<lambda>str. rev (dropWhile asciiWhiteSpace (rev (dropWhile asciiWhiteSpace str))))\<rparr>"

section \<open>Properties of the JavaScript helpers and of FocusTrapManager\<close>


lemma indexOf_nonneg: "-1 \<le> indexOf xs x"
  by (induction xs) (auto simp: Let_def)

lemma indexOf_notin: "indexOf xs x = -1 \<longleftrightarrow> x \<notin> set xs"
proof (induction xs)
  case Nil then show ?case by simp
next
  case (Cons y ys)
  have "indexOf ys x + 1 \<noteq> -1" using indexOf_nonneg[of ys x] by linarith
  with Cons show ?case by (auto simp: Let_def)
qed

lemma splice1_indexOf: "x \<in> set xs \<Longrightarrow> splice1 (nat (indexOf xs x)) xs = remove1 x xs"
proof (induction xs)
  case Nil then show ?case by simp
next
  case (Cons y ys)
  show ?case
  proof (cases "y = x")
    case True then show ?thesis by (simp add: splice1_def)
  next
    case False
    with Cons.prems have xin: "x \<in> set ys" by simp
    have ne: "indexOf ys x \<noteq> -1" using xin by (simp add: indexOf_notin)
    have ge: "0 \<le> indexOf ys x" using ne indexOf_nonneg[of ys x] by linarith
    have "nat (indexOf ys x + 1) = Suc (nat (indexOf ys x))" using ge by simp
    with False ne Cons.IH[OF xin] show ?thesis
      by (simp add: splice1_def Let_def)
  qed
qed

lemma register_stack: "focusTrapStack (register t m) = filter (\<lambda>ft. ft \<noteq> t) (focusTrapStack m) @ [t]"
  by (simp add: register_def Let_def enable_trap_def disable_trap_def)

lemma register_enabled:
  "trapEnabled (register t m) u =
     (if u = t then True
      else if filter (\<lambda>ft. ft \<noteq> t) (focusTrapStack m) \<noteq> [] \<and> u = last (filter (\<lambda>ft. ft \<noteq> t) (focusTrapStack m))
      then False else trapEnabled m u)"
  by (simp add: register_def Let_def enable_trap_def disable_trap_def)

lemma deregister_stack: "focusTrapStack (deregister t m) = remove1 t (focusTrapStack m)"
proof (cases "t \<in> set (focusTrapStack m)")
  case True
  then have "indexOf (focusTrapStack m) t \<noteq> -1" by (simp add: indexOf_notin)
  with True show ?thesis
    by (simp add: deregister_def Let_def enable_trap_def disable_trap_def splice1_indexOf)
next
  case False
  then have "indexOf (focusTrapStack m) t = -1" by (simp add: indexOf_notin)
  with False show ?thesis
    by (simp add: deregister_def Let_def enable_trap_def disable_trap_def remove1_idem)
qed

lemma deregister_enabled:
  "trapEnabled (deregister t m) u =
     (if t \<in> set (focusTrapStack m) \<and> remove1 t (focusTrapStack m) \<noteq> [] \<and> u = last (remove1 t (focusTrapStack m))
      then True
      else if u = t then False else trapEnabled m u)"
proof (cases "t \<in> set (focusTrapStack m)")
  case True
  then have "indexOf (focusTrapStack m) t \<noteq> -1" by (simp add: indexOf_notin)
  with True show ?thesis
    by (simp add: deregister_def Let_def enable_trap_def disable_trap_def splice1_indexOf)
next
  case False
  then have "indexOf (focusTrapStack m) t = -1" by (simp add: indexOf_notin)
  with False show ?thesis
    by (simp add: deregister_def Let_def enable_trap_def disable_trap_def)
qed

lemma set_butlast_distinct:
  "distinct xs \<Longrightarrow> xs \<noteq> [] \<Longrightarrow> set (butlast xs) = set xs - {last xs}"
proof -
  assume d: "distinct xs" and ne: "xs \<noteq> []"
  have eq: "xs = butlast xs @ [last xs]" using ne by simp
  have "distinct (butlast xs @ [last xs])" using d eq by simp
  then have "last xs \<notin> set (butlast xs)" by simp
  moreover have "set xs = set (butlast xs) \<union> {last xs}"
    using eq by (metis set_append list.set(1) list.set(2))
  ultimately show ?thesis by auto
qed

lemma last_filter_keep: "xs \<noteq> [] \<Longrightarrow> P (last xs) \<Longrightarrow> last (filter P xs) = last xs"
  by (induction xs) (auto simp: filter_empty_conv)

lemma remove1_Nil_iff: "remove1 t xs = [] \<longleftrightarrow> xs = [] \<or> xs = [t]"
  by (cases xs) auto

lemma last_remove1_keep: "xs \<noteq> [] \<Longrightarrow> last xs \<noteq> t \<Longrightarrow> last (remove1 t xs) = last xs"
  by (induction xs) (auto simp: remove1_Nil_iff)

lemma stackInv_register: 
  assumes inv: "stackInv m" shows "stackInv (register t m)"
proof -
  let ?s = "focusTrapStack m"
  let ?f = "filter (\<lambda>ft. ft \<noteq> t) ?s"
  have d: "distinct ?s" using inv by (simp add: stackInv_def)
  have below: "\<not> trapEnabled m u" if "u \<in> set ?s" "u \<noteq> last ?s" for u
  proof -
    have "?s \<noteq> []" using that by auto
    then have "u \<in> set (butlast ?s)" using that set_butlast_distinct[OF d] by simp
    then show ?thesis using inv by (simp add: stackInv_def)
  qed
  have "distinct (?f @ [t])" using d by simp
  moreover have "trapEnabled (register t m) (last (?f @ [t]))"
    by (simp add: register_enabled)
  moreover have "\<forall>u \<in> set (butlast (?f @ [t])). \<not> trapEnabled (register t m) u"
  proof
    fix u assume "u \<in> set (butlast (?f @ [t]))"
    then have uf: "u \<in> set ?f" by (simp add: butlast_append)
    then have ut: "u \<noteq> t" and us: "u \<in> set ?s" by simp_all
    have fne: "?f \<noteq> []" using uf by (metis empty_iff list.set(1))
    show "\<not> trapEnabled (register t m) u"
    proof (cases "u = last ?f")
      case True
      with fne ut show ?thesis by (simp add: register_enabled)
    next
      case False
      have "u \<noteq> last ?s"
      proof
        assume "u = last ?s"
        moreover have "?s \<noteq> []" using us by (metis empty_iff list.set(1))
        ultimately have "last ?f = u" using ut last_filter_keep[of ?s "\<lambda>ft. ft \<noteq> t"] by simp
        with False show False by simp
      qed
      with us have "\<not> trapEnabled m u" by (rule below)
      with False ut show ?thesis by (simp add: register_enabled)
    qed
  qed
  ultimately show ?thesis by (simp add: stackInv_def register_stack)
qed

lemma stackInv_deregister:
  assumes inv: "stackInv m" shows "stackInv (deregister t m)"
proof -
  let ?s = "focusTrapStack m"
  let ?r = "remove1 t ?s"
  have d: "distinct ?s" using inv by (simp add: stackInv_def)
  have top: "?s \<noteq> [] \<Longrightarrow> trapEnabled m (last ?s)" using inv by (simp add: stackInv_def)
  have below: "\<not> trapEnabled m u" if "u \<in> set ?s" "u \<noteq> last ?s" for u
  proof -
    have "?s \<noteq> []" using that by auto
    then have "u \<in> set (butlast ?s)" using that set_butlast_distinct[OF d] by simp
    then show ?thesis using inv by (simp add: stackInv_def)
  qed
  have dr: "distinct ?r" using d by simp
  have tr: "t \<notin> set ?r" using d by simp
  have "?r \<noteq> [] \<longrightarrow> trapEnabled (deregister t m) (last ?r)"
  proof
    assume rne: "?r \<noteq> []"
    show "trapEnabled (deregister t m) (last ?r)"
    proof (cases "t \<in> set ?s")
      case True with rne show ?thesis by (simp add: deregister_enabled)
    next
      case False
      then have "?r = ?s" by (simp add: remove1_idem)
      moreover have "last ?s \<noteq> t" using False rne \<open>?r = ?s\<close> last_in_set[of ?s] by auto
      ultimately show ?thesis using False rne top by (simp add: deregister_enabled)
    qed
  qed
  moreover have "\<forall>u \<in> set (butlast ?r). \<not> trapEnabled (deregister t m) u"
  proof
    fix u assume ub: "u \<in> set (butlast ?r)"
    then have rne: "?r \<noteq> []" by auto
    have ur: "u \<in> set ?r" and ul: "u \<noteq> last ?r"
      using ub set_butlast_distinct[OF dr rne] by auto
    have ut: "u \<noteq> t" using ur tr by auto
    have us: "u \<in> set ?s" using ur by (metis notin_set_remove1)
    have "u \<noteq> last ?s"
    proof
      assume "u = last ?s"
      moreover have "?s \<noteq> []" using us by (metis empty_iff list.set(1))
      ultimately have "last ?r = u" using ut last_remove1_keep[of ?s t] by simp
      with ul show False by simp
    qed
    with us have "\<not> trapEnabled m u" by (rule below)
    with ul ut show "\<not> trapEnabled (deregister t m) u" by (simp add: deregister_enabled)
  qed
  ultimately show ?thesis using dr by (simp add: stackInv_def deregister_stack)
qed

lemma stackInv_applyCalls: "stackInv m \<Longrightarrow> stackInv (applyCalls cs m)"
proof (induction cs arbitrary: m)
  case Nil then show ?case by simp
next
  case (Cons c cs)
  have "stackInv (applyCall c m)"
    using Cons.prems by (cases c) (simp_all add: stackInv_register stackInv_deregister)
  then show ?case using Cons.IH by simp
qed

lemma stackInv_newManager: "stackInv (newManager en)"
  by (simp add: stackInv_def newManager_def)

lemma stackInv_enabledInStack:
  assumes "stackInv m"
  shows "enabledInStack m = (if focusTrapStack m = [] then [] else [last (focusTrapStack m)])"
proof (cases "focusTrapStack m = []")
  case True then show ?thesis by (simp add: enabledInStack_def)
next
  case False
  then have eq: "focusTrapStack m = butlast (focusTrapStack m) @ [last (focusTrapStack m)]" by simp
  have a: "filter (trapEnabled m) (butlast (focusTrapStack m)) = []"
    using assms by (simp add: stackInv_def filter_empty_conv)
  have b: "trapEnabled m (last (focusTrapStack m))" using assms False by (simp add: stackInv_def)
  have "filter (trapEnabled m) (butlast (focusTrapStack m) @ [last (focusTrapStack m)]) = [last (focusTrapStack m)]"
    using a b by simp
  with eq False show ?thesis by (simp add: enabledInStack_def)
qed

text \<open>
  Claim C1. Starting from a fresh manager, after any sequence of \<open>register\<close> and
  \<open>deregister\<close> calls: when the stack is non-empty, no trap occurs in it twice and the
  enabled traps of the stack are exactly its top; when the stack is empty, it holds no
  enabled trap.
\<close>

theorem manager_single_enabled_top:
  "(focusTrapStack (applyCalls cs (newManager en)) \<noteq> [] \<longrightarrow>
      distinct (focusTrapStack (applyCalls cs (newManager en))) \<and>
      enabledInStack (applyCalls cs (newManager en)) =
        [last (focusTrapStack (applyCalls cs (newManager en)))]) \<and>
   (focusTrapStack (applyCalls cs (newManager en)) = [] \<longrightarrow>
      enabledInStack (applyCalls cs (newManager en)) = [])"
proof -
  have inv: "stackInv (applyCalls cs (newManager en))"
    by (rule stackInv_applyCalls[OF stackInv_newManager])
  then have "distinct (focusTrapStack (applyCalls cs (newManager en)))" by (simp add: stackInv_def)
  with stackInv_enabledInStack[OF inv] show ?thesis by simp
qed

theorem manager_single_enabled_top_witness:
  "focusTrapStack (applyCalls [Register 1, Register 2, Register 1, Deregister 3, Register 3, Deregister 3]
      (newManager (\<lambda>t. True))) = [2, 1] \<and>
   enabledInStack (applyCalls [Register 1, Register 2, Register 1, Deregister 3, Register 3, Deregister 3]
      (newManager (\<lambda>t. True))) = [1] \<and>
   focusTrapStack (applyCalls [Register 1, Deregister 1] (newManager (\<lambda>t. True))) = [] \<and>
   enabledInStack (applyCalls [Register 1, Deregister 1] (newManager (\<lambda>t. True))) = []"
  using manager_single_enabled_top[of "[Register 1, Register 2, Register 1, Deregister 3, Register 3, Deregister 3]" "\<lambda>t. True"]
    manager_single_enabled_top[of "[Register 1, Deregister 1]" "\<lambda>t. True"]
  by (simp add: register_def deregister_def newManager_def Let_def enable_trap_def disable_trap_def splice1_def)

lemma register_register_deregister:
  assumes ne: "T1 \<noteq> T2"
  shows "trapEnabled (register T2 (register T1 m)) T2"
    and "\<not> trapEnabled (register T2 (register T1 m)) T1"
    and "trapEnabled (deregister T2 (register T2 (register T1 m))) T1"
proof -
  define m2 where "m2 = register T2 (register T1 m)"
  define g where "g = filter (\<lambda>ft. ft \<noteq> T2) (filter (\<lambda>ft. ft \<noteq> T1) (focusTrapStack m))"
  have s2: "focusTrapStack m2 = g @ [T1, T2]"
    using ne by (simp add: register_stack m2_def g_def)
  show "trapEnabled (register T2 (register T1 m)) T2" by (simp add: register_enabled)
  show "\<not> trapEnabled (register T2 (register T1 m)) T1"
    using ne by (simp add: register_enabled register_stack)
  have "T2 \<notin> set g" by (simp add: g_def)
  then have r: "remove1 T2 (focusTrapStack m2) = g @ [T1]"
    using ne by (simp add: remove1_append s2)
  have i: "T2 \<in> set (focusTrapStack m2)" by (simp add: s2)
  have "trapEnabled (deregister T2 m2) T1"
    using i r by (simp add: deregister_enabled)
  then show "trapEnabled (deregister T2 (register T2 (register T1 m))) T1"
    by (simp add: m2_def)
qed

text \<open>
  Claim C2. From every manager state and for distinct traps \<open>T1\<close> and \<open>T2\<close>: after
  \<open>register T1\<close> and then \<open>register T2\<close>, \<open>T2\<close> is enabled and \<open>T1\<close> is disabled, and
  after a following \<open>deregister T2\<close>, \<open>T1\<close> is enabled again. Moreover \<open>register T\<close>
  leaves the stack as the old stack without every earlier entry of \<open>T\<close>, followed by
  \<open>T\<close>; \<open>T\<close> is enabled, the top of the stack after dropping those entries is disabled,
  and no other trap changes.
\<close>

theorem register_then_register_then_deregister:
  "(T1 \<noteq> T2 \<longrightarrow>
     trapEnabled (register T2 (register T1 m)) T2 \<and>
     \<not> trapEnabled (register T2 (register T1 m)) T1 \<and>
     trapEnabled (deregister T2 (register T2 (register T1 m))) T1) \<and>
   focusTrapStack (register T m) = filter (\<lambda>ft. ft \<noteq> T) (focusTrapStack m) @ [T] \<and>
   trapEnabled (register T m) T \<and>
   (filter (\<lambda>ft. ft \<noteq> T) (focusTrapStack m) \<noteq> [] \<longrightarrow>
      \<not> trapEnabled (register T m) (last (filter (\<lambda>ft. ft \<noteq> T) (focusTrapStack m)))) \<and>
   (\<forall>u. u \<noteq> T \<and> (filter (\<lambda>ft. ft \<noteq> T) (focusTrapStack m) = [] \<or>
            u \<noteq> last (filter (\<lambda>ft. ft \<noteq> T) (focusTrapStack m))) \<longrightarrow>
        trapEnabled (register T m) u = trapEnabled m u)"
proof -
  have "filter (\<lambda>ft. ft \<noteq> T) (focusTrapStack m) \<noteq> [] \<longrightarrow>
      \<not> trapEnabled (register T m) (last (filter (\<lambda>ft. ft \<noteq> T) (focusTrapStack m)))"
  proof
    assume ne: "filter (\<lambda>ft. ft \<noteq> T) (focusTrapStack m) \<noteq> []"
    then have "last (filter (\<lambda>ft. ft \<noteq> T) (focusTrapStack m)) \<in> set (filter (\<lambda>ft. ft \<noteq> T) (focusTrapStack m))"
      by (rule last_in_set)
    then have "last (filter (\<lambda>ft. ft \<noteq> T) (focusTrapStack m)) \<noteq> T" by simp
    with ne show "\<not> trapEnabled (register T m) (last (filter (\<lambda>ft. ft \<noteq> T) (focusTrapStack m)))"
      by (simp add: register_enabled)
  qed
  moreover have "\<forall>u. u \<noteq> T \<and> (filter (\<lambda>ft. ft \<noteq> T) (focusTrapStack m) = [] \<or>
            u \<noteq> last (filter (\<lambda>ft. ft \<noteq> T) (focusTrapStack m))) \<longrightarrow>
        trapEnabled (register T m) u = trapEnabled m u"
    by (auto simp: register_enabled)
  ultimately show ?thesis
    using register_register_deregister[of T1 T2 m]
    by (simp add: register_stack register_enabled)
qed

theorem register_then_register_then_deregister_witness:
  "(1::nat) \<noteq> 2 \<and>
   trapEnabled (register 2 (register 1 \<lparr>focusTrapStack = [2, 1, 3], trapEnabled = (\<lambda>t. t = 3)\<rparr>)) 2 \<and>
   \<not> trapEnabled (register 2 (register 1 \<lparr>focusTrapStack = [2, 1, 3], trapEnabled = (\<lambda>t. t = 3)\<rparr>)) 1 \<and>
   trapEnabled (deregister 2 (register 2 (register 1 \<lparr>focusTrapStack = [2, 1, 3], trapEnabled = (\<lambda>t. t = 3)\<rparr>))) 1 \<and>
   focusTrapStack (register 1 \<lparr>focusTrapStack = [2, 1, 3], trapEnabled = (\<lambda>t. t = 3)\<rparr>) = [2, 3, 1] \<and>
   \<not> trapEnabled (register 1 \<lparr>focusTrapStack = [2, 1, 3], trapEnabled = (\<lambda>t. t = 3)\<rparr>) 3"
  using register_then_register_then_deregister[of 1 2 "\<lparr>focusTrapStack = [2, 1, 3], trapEnabled = (\<lambda>t. t = 3)\<rparr>" 1]
  by simp

lemma stackInv_reachable_roundtrip:
  assumes inv: "stackInv m" and notin: "T \<notin> set (focusTrapStack m)"
  shows "focusTrapStack (deregister T (register T m)) = focusTrapStack m"
    and "\<forall>u \<in> set (focusTrapStack m). trapEnabled (deregister T (register T m)) u = trapEnabled m u"
proof -
  let ?s = "focusTrapStack m"
  have f: "filter (\<lambda>ft. ft \<noteq> T) ?s = ?s" using notin by (auto simp: filter_id_conv)
  have s1: "focusTrapStack (register T m) = ?s @ [T]" by (simp add: register_stack f)
  have r: "remove1 T (?s @ [T]) = ?s" using notin by (simp add: remove1_append)
  show "focusTrapStack (deregister T (register T m)) = ?s"
    by (simp add: deregister_stack s1 r)
  show "\<forall>u \<in> set ?s. trapEnabled (deregister T (register T m)) u = trapEnabled m u"
  proof
    fix u assume us: "u \<in> set ?s"
    then have ut: "u \<noteq> T" using notin by auto
    have sne: "?s \<noteq> []" using us by auto
    have top: "trapEnabled m (last ?s)" using inv sne by (simp add: stackInv_def)
    show "trapEnabled (deregister T (register T m)) u = trapEnabled m u"
    proof (cases "u = last ?s")
      case True
      with top sne show ?thesis by (simp add: deregister_enabled s1 r)
    next
      case False
      with ut sne show ?thesis by (simp add: deregister_enabled s1 r register_enabled f)
    qed
  qed
qed

text \<open>
  Claim C8. In every state the manager reaches from a fresh one, and for every trap \<open>T\<close>
  that is not in the stack, \<open>register T\<close> followed at once by \<open>deregister T\<close> gives back
  the same stack and leaves every trap of the stack, the top included, enabled or disabled
  as it was.
\<close>

theorem register_deregister_roundtrip:
  "T \<notin> set (focusTrapStack (applyCalls cs (newManager en))) \<longrightarrow>
     focusTrapStack (deregister T (register T (applyCalls cs (newManager en)))) =
       focusTrapStack (applyCalls cs (newManager en)) \<and>
     (\<forall>u \<in> set (focusTrapStack (applyCalls cs (newManager en))).
        trapEnabled (deregister T (register T (applyCalls cs (newManager en)))) u =
        trapEnabled (applyCalls cs (newManager en)) u)"
  using stackInv_reachable_roundtrip[OF stackInv_applyCalls[OF stackInv_newManager]]
  by blast

theorem register_deregister_roundtrip_witness:
  "3 \<notin> set (focusTrapStack (applyCalls [Register 1, Register 2] (newManager (\<lambda>t. False)))) \<and>
   focusTrapStack (deregister 3 (register 3 (applyCalls [Register 1, Register 2] (newManager (\<lambda>t. False))))) = [1, 2] \<and>
   trapEnabled (deregister 3 (register 3 (applyCalls [Register 1, Register 2] (newManager (\<lambda>t. False))))) 2 \<and>
   \<not> trapEnabled (deregister 3 (register 3 (applyCalls [Register 1, Register 2] (newManager (\<lambda>t. False))))) 1"
proof -
  have s: "focusTrapStack (applyCalls [Register 1, Register 2] (newManager (\<lambda>t. False))) = [1, 2]"
    by (simp add: register_stack newManager_def)
  have e: "trapEnabled (applyCalls [Register 1, Register 2] (newManager (\<lambda>t. False))) 2"
    "\<not> trapEnabled (applyCalls [Register 1, Register 2] (newManager (\<lambda>t. False))) 1"
    by (simp_all add: register_stack register_enabled newManager_def)
  have n: "3 \<notin> set (focusTrapStack (applyCalls [Register 1, Register 2] (newManager (\<lambda>t. False))))"
    by (simp add: register_stack newManager_def)
  show ?thesis
    using register_deregister_roundtrip[of 3 "[Register 1, Register 2]" "\<lambda>t. False"] n s e
    by simp
qed

section \<open>Properties of FocusMonitor\<close>

lemma wasCausedByTouch_iff:
  "wasCausedByTouch m ft \<longleftrightarrow>
     (\<exists>t f. lastTouchTarget m = Some (DomNode t) \<and> ft = Some (DomNode f) \<and>
        (f = t \<or> contains f t))"
proof (cases "lastTouchTarget m")
  case None then show ?thesis by (simp add: wasCausedByTouch_def)
next
  case (Some tt)
  show ?thesis
  proof (cases tt)
    case NonNode with Some show ?thesis by (simp add: wasCausedByTouch_def)
  next
    case (DomNode t)
    show ?thesis
    proof (cases ft)
      case None with Some DomNode show ?thesis by (simp add: wasCausedByTouch_def)
    next
      case (Some x)
      with \<open>lastTouchTarget m = Some tt\<close> DomNode show ?thesis
        by (cases x) (simp_all add: wasCausedByTouch_def)
    qed
  qed
qed

text \<open>
  Claim C3, as stated, at a concrete input. A touch starts on the node at position
  \<open>[0]\<close>; then the node at position \<open>[0, 1]\<close>, which is contained by the touch target,
  receives focus with no transient origin and no window refocus. The claim gives
  \<open>touch\<close>; the code gives \<open>program\<close>.
\<close>

theorem focus_origin_touch_direction_counterexample:
  "contains [0] [0, 1] \<and>
   origin (documentTouchstartListener (Some (DomNode [0])) (newFocusMonitor IMMEDIATE)) = None \<and>
   \<not> windowFocused (documentTouchstartListener (Some (DomNode [0])) (newFocusMonitor IMMEDIATE)) \<and>
   lastTouchTarget (documentTouchstartListener (Some (DomNode [0])) (newFocusMonitor IMMEDIATE))
     = Some (DomNode [0]) \<and>
   getFocusOrigin (documentTouchstartListener (Some (DomNode [0])) (newFocusMonitor IMMEDIATE))
     (Some (DomNode [0, 1])) = Some Program"
  by (simp add: contains_def getFocusOrigin_def wasCausedByTouch_def
      documentTouchstartListener_def newFocusMonitor_def)

text \<open>
  Claim C3, amended. The origin of a focus event is resolved by this priority: (a) the
  transient origin, when there is one; (b) the last focus origin, when the window was just
  refocused and a last focus origin exists; (c) \<open>touch\<close>, when the last touch target and the
  focus target are nodes and the focus target is the touch target or contains it;
  (d) \<open>program\<close> otherwise. A keydown followed by a focus gives \<open>keyboard\<close>, a genuine
  mousedown with no touch in flight followed by a focus gives \<open>mouse\<close>, and a focus on a
  fresh monitor, or with no transient origin, no window refocus and no touch target, gives
  \<open>program\<close>.
\<close>

theorem focus_origin_priority:
  "(origin m = Some a \<longrightarrow> getFocusOrigin m ft = Some a) \<and>
   (origin m = None \<and> windowFocused m \<and> lastFocusOrigin m = Some b \<longrightarrow>
      getFocusOrigin m ft = Some b) \<and>
   (origin m = None \<and> \<not> (windowFocused m \<and> lastFocusOrigin m \<noteq> None) \<and>
    lastTouchTarget m = Some (DomNode t) \<and> ft = Some (DomNode f) \<and> (f = t \<or> contains f t) \<longrightarrow>
      getFocusOrigin m ft = Some Touch) \<and>
   (origin m = None \<and> \<not> (windowFocused m \<and> lastFocusOrigin m \<noteq> None) \<and>
    \<not> (\<exists>t' f'. lastTouchTarget m = Some (DomNode t') \<and> ft = Some (DomNode f') \<and>
           (f' = t' \<or> contains f' t')) \<longrightarrow>
      getFocusOrigin m ft = Some Program) \<and>
   (origin m = None \<and> \<not> windowFocused m \<and> lastTouchTarget m = None \<longrightarrow>
      getFocusOrigin m ft = Some Program) \<and>
   getFocusOrigin (documentKeydownListener m) ft = Some Keyboard \<and>
   (lastTouchTarget m = None \<longrightarrow>
      getFocusOrigin (documentMousedownListener False m) ft = Some Mouse) \<and>
   getFocusOrigin (newFocusMonitor mode) ft = Some Program"
proof -
  have a: "origin m = Some a \<longrightarrow> getFocusOrigin m ft = Some a"
    by (simp add: getFocusOrigin_def)
  have b: "origin m = None \<and> windowFocused m \<and> lastFocusOrigin m = Some b \<longrightarrow>
      getFocusOrigin m ft = Some b"
    by (simp add: getFocusOrigin_def)
  have c: "origin m = None \<and> \<not> (windowFocused m \<and> lastFocusOrigin m \<noteq> None) \<and>
    lastTouchTarget m = Some (DomNode t) \<and> ft = Some (DomNode f) \<and> (f = t \<or> contains f t) \<longrightarrow>
      getFocusOrigin m ft = Some Touch"
    by (auto simp: getFocusOrigin_def wasCausedByTouch_def)
  have d: "origin m = None \<and> \<not> (windowFocused m \<and> lastFocusOrigin m \<noteq> None) \<and>
    \<not> (\<exists>t' f'. lastTouchTarget m = Some (DomNode t') \<and> ft = Some (DomNode f') \<and>
           (f' = t' \<or> contains f' t')) \<longrightarrow>
      getFocusOrigin m ft = Some Program"
    using wasCausedByTouch_iff[of m ft] by (auto simp: getFocusOrigin_def)
  have e: "origin m = None \<and> \<not> windowFocused m \<and> lastTouchTarget m = None \<longrightarrow>
      getFocusOrigin m ft = Some Program"
    by (simp add: getFocusOrigin_def wasCausedByTouch_def)
  have k: "getFocusOrigin (documentKeydownListener m) ft = Some Keyboard"
    by (simp add: getFocusOrigin_def documentKeydownListener_def setOriginForCurrentEventQueue_def)
  have mo: "lastTouchTarget m = None \<longrightarrow>
      getFocusOrigin (documentMousedownListener False m) ft = Some Mouse"
    by (simp add: getFocusOrigin_def documentMousedownListener_def setOriginForCurrentEventQueue_def)
  have n: "getFocusOrigin (newFocusMonitor mode) ft = Some Program"
    by (simp add: getFocusOrigin_def wasCausedByTouch_def newFocusMonitor_def)
  from a b c d e k mo n show ?thesis by blast
qed

theorem focus_origin_priority_witness:
  "getFocusOrigin \<lparr>origin = Some Mouse, lastFocusOrigin = Some Keyboard, windowFocused = True,
      lastTouchTarget = Some (DomNode [2]), detectionMode = EVENTUAL\<rparr> (Some (DomNode [2])) = Some Mouse \<and>
   getFocusOrigin \<lparr>origin = None, lastFocusOrigin = Some Keyboard, windowFocused = True,
      lastTouchTarget = Some (DomNode [2]), detectionMode = EVENTUAL\<rparr> (Some (DomNode [2])) = Some Keyboard \<and>
   getFocusOrigin \<lparr>origin = None, lastFocusOrigin = None, windowFocused = True,
      lastTouchTarget = Some (DomNode [2, 0]), detectionMode = EVENTUAL\<rparr> (Some (DomNode [2])) = Some Touch \<and>
   getFocusOrigin \<lparr>origin = None, lastFocusOrigin = None, windowFocused = True,
      lastTouchTarget = Some (DomNode [2]), detectionMode = EVENTUAL\<rparr> (Some (DomNode [2, 0])) = Some Program \<and>
   getFocusOrigin \<lparr>origin = None, lastFocusOrigin = Some Keyboard, windowFocused = False,
      lastTouchTarget = None, detectionMode = EVENTUAL\<rparr> (Some (DomNode [2])) = Some Program \<and>
   getFocusOrigin (documentMousedownListener False (newFocusMonitor IMMEDIATE)) (Some (DomNode [2])) = Some Mouse"
proof -
  have p: "contains [2] [2, 0]" by (simp add: contains_def)
  have q: "\<not> contains [2, 0] [2]" by (simp add: contains_def)
  show ?thesis
    using
      focus_origin_priority[of "\<lparr>origin = Some Mouse, lastFocusOrigin = Some Keyboard, windowFocused = True,
        lastTouchTarget = Some (DomNode [2]), detectionMode = EVENTUAL\<rparr>" Mouse "Some (DomNode [2])"]
      focus_origin_priority[of "\<lparr>origin = None, lastFocusOrigin = Some Keyboard, windowFocused = True,
        lastTouchTarget = Some (DomNode [2]), detectionMode = EVENTUAL\<rparr>" _ "Some (DomNode [2])" Keyboard]
      focus_origin_priority[of "\<lparr>origin = None, lastFocusOrigin = None, windowFocused = True,
        lastTouchTarget = Some (DomNode [2, 0]), detectionMode = EVENTUAL\<rparr>" _ "Some (DomNode [2])" _ "[2, 0]" "[2]"]
      focus_origin_priority[of "\<lparr>origin = None, lastFocusOrigin = None, windowFocused = True,
        lastTouchTarget = Some (DomNode [2]), detectionMode = EVENTUAL\<rparr>" _ "Some (DomNode [2, 0])"]
      focus_origin_priority[of "\<lparr>origin = None, lastFocusOrigin = Some Keyboard, windowFocused = False,
        lastTouchTarget = None, detectionMode = EVENTUAL\<rparr>" _ "Some (DomNode [2])"]
      focus_origin_priority[of "newFocusMonitor IMMEDIATE" _ "Some (DomNode [2])"]
      p q
    by (simp add: newFocusMonitor_def)
qed

section \<open>Properties of FocusTrap\<close>

lemma filter_isAnchor_removeAll_both:
  "filter isAnchor (removeAll EndAnchor (removeAll StartAnchor xs)) = []"
  by (induction xs) (auto simp: isAnchor_def)

lemma attachAnchors_attached:
  "hasAttached t \<Longrightarrow> attachAnchors t = (True, t)"
  by (simp add: attachAnchors_def)

lemma attachAnchors_no_parent:
  assumes "\<not> hasAttached t" "elementParent t = None"
  shows "fst (attachAnchors t) = False"
    and "elementParent (snd (attachAnchors t)) = None"
    and "\<not> hasAttached (snd (attachAnchors t))"
    and "startAnchor (snd (attachAnchors t)) \<noteq> None"
    and "endAnchor (snd (attachAnchors t)) \<noteq> None"
  using assms by (simp_all add: attachAnchors_def Let_def)

lemma attachAnchors_parent:
  assumes "\<not> hasAttached t" "elementParent t = Some (before, after)"
  shows "fst (attachAnchors t) = True"
    and "hasAttached (snd (attachAnchors t))"
    and "elementParent (snd (attachAnchors t)) =
           Some (removeAll EndAnchor (removeAll StartAnchor before) @ [StartAnchor],
                 EndAnchor # removeAll EndAnchor (removeAll StartAnchor after))"
  using assms
  by (simp_all add: attachAnchors_def Let_def insertBeforeElement_def insertBeforeNextSibling_def)

lemma attachAnchors_parent_anchors:
  assumes "\<not> hasAttached t" "elementParent t = Some (before, after)"
  shows "attachedAnchors (snd (attachAnchors t)) = [StartAnchor, EndAnchor]"
  using attachAnchors_parent(3)[OF assms]
  by (simp add: attachedAnchors_def filter_isAnchor_removeAll_both isAnchor_def)

lemma attachAnchorsTimes_attached:
  "hasAttached t \<Longrightarrow> attachAnchorsTimes n t = t"
  by (induction n) (simp_all add: attachAnchors_attached)

lemma attachAnchors_true_attached:
  "fst (attachAnchors t) \<Longrightarrow> hasAttached (snd (attachAnchors t))"
  by (cases "elementParent t") (auto simp: attachAnchors_def Let_def split: if_splits)

text \<open>
  Claim C4. For a trap whose anchors are not attached yet: when the region element has no
  parent node, \<open>attachAnchors()\<close> returns false, attaches no anchor and stays unattached;
  when the region element has a parent node, it returns true and exactly two anchors are
  attached, the start anchor right before the region element and the end anchor right after
  it. Once a trap has attached, \<open>attachAnchors()\<close> returns true and changes nothing, and so
  does every later call after a call that returned true.
\<close>

theorem attachAnchors_contract:
  "(\<not> hasAttached t \<and> elementParent t = None \<longrightarrow>
      fst (attachAnchors t) = False \<and> attachedAnchors (snd (attachAnchors t)) = [] \<and>
      elementParent (snd (attachAnchors t)) = None \<and> \<not> hasAttached (snd (attachAnchors t))) \<and>
   (\<not> hasAttached t \<and> elementParent t \<noteq> None \<longrightarrow>
      fst (attachAnchors t) = True \<and>
      attachedAnchors (snd (attachAnchors t)) = [StartAnchor, EndAnchor] \<and>
      (\<exists>before after. elementParent (snd (attachAnchors t)) =
         Some (before @ [StartAnchor], EndAnchor # after))) \<and>
   (hasAttached t \<longrightarrow> attachAnchors t = (True, t)) \<and>
   (fst (attachAnchors t) \<longrightarrow>
      fst (attachAnchors (attachAnchorsTimes n (snd (attachAnchors t)))) = True \<and>
      snd (attachAnchors (attachAnchorsTimes n (snd (attachAnchors t)))) = snd (attachAnchors t))"
proof -
  have a: "\<not> hasAttached t \<and> elementParent t = None \<longrightarrow>
      fst (attachAnchors t) = False \<and> attachedAnchors (snd (attachAnchors t)) = [] \<and>
      elementParent (snd (attachAnchors t)) = None \<and> \<not> hasAttached (snd (attachAnchors t))"
    using attachAnchors_no_parent[of t] by (simp add: attachedAnchors_def)
  have b: "\<not> hasAttached t \<and> elementParent t \<noteq> None \<longrightarrow>
      fst (attachAnchors t) = True \<and>
      attachedAnchors (snd (attachAnchors t)) = [StartAnchor, EndAnchor] \<and>
      (\<exists>before after. elementParent (snd (attachAnchors t)) =
         Some (before @ [StartAnchor], EndAnchor # after))"
  proof
    assume h: "\<not> hasAttached t \<and> elementParent t \<noteq> None"
    then obtain b0 a0 where p: "elementParent t = Some (b0, a0)" by (cases "elementParent t") auto
    from h have na: "\<not> hasAttached t" by simp
    show "fst (attachAnchors t) = True \<and>
      attachedAnchors (snd (attachAnchors t)) = [StartAnchor, EndAnchor] \<and>
      (\<exists>before after. elementParent (snd (attachAnchors t)) =
         Some (before @ [StartAnchor], EndAnchor # after))"
      using attachAnchors_parent[OF na p] attachAnchors_parent_anchors[OF na p] by blast
  qed
  have c: "hasAttached t \<longrightarrow> attachAnchors t = (True, t)"
    by (simp add: attachAnchors_attached)
  have d: "fst (attachAnchors t) \<longrightarrow>
      fst (attachAnchors (attachAnchorsTimes n (snd (attachAnchors t)))) = True \<and>
      snd (attachAnchors (attachAnchorsTimes n (snd (attachAnchors t)))) = snd (attachAnchors t)"
  proof
    assume "fst (attachAnchors t)"
    then have h: "hasAttached (snd (attachAnchors t))" by (rule attachAnchors_true_attached)
    then show "fst (attachAnchors (attachAnchorsTimes n (snd (attachAnchors t)))) = True \<and>
      snd (attachAnchors (attachAnchorsTimes n (snd (attachAnchors t)))) = snd (attachAnchors t)"
      by (simp add: attachAnchorsTimes_attached attachAnchors_attached)
  qed
  from a b c d show ?thesis by blast
qed

theorem attachAnchors_contract_witness:
  "fst (attachAnchors \<lparr>startAnchor = None, endAnchor = None, hasAttached = False, enabled = True,
       elementParent = None\<rparr>) = False \<and>
   attachedAnchors (snd (attachAnchors \<lparr>startAnchor = None, endAnchor = None, hasAttached = False,
       enabled = True, elementParent = None\<rparr>)) = [] \<and>
   fst (attachAnchors ((snd (attachAnchors \<lparr>startAnchor = None, endAnchor = None, hasAttached = False,
       enabled = True, elementParent = None\<rparr>))\<lparr>elementParent := Some ([Sibling 1], [Sibling 2])\<rparr>)) = True \<and>
   elementParent (snd (attachAnchors ((snd (attachAnchors \<lparr>startAnchor = None, endAnchor = None,
       hasAttached = False, enabled = True, elementParent = None\<rparr>))\<lparr>elementParent := Some ([Sibling 1], [Sibling 2])\<rparr>)))
     = Some ([Sibling 1, StartAnchor], [EndAnchor, Sibling 2]) \<and>
   attachedAnchors (snd (attachAnchors (attachAnchorsTimes 3 (snd (attachAnchors ((snd (attachAnchors
       \<lparr>startAnchor = None, endAnchor = None, hasAttached = False, enabled = True,
        elementParent = None\<rparr>))\<lparr>elementParent := Some ([Sibling 1], [Sibling 2])\<rparr>))))))
     = [StartAnchor, EndAnchor]"
proof -
  let ?t0 = "\<lparr>startAnchor = None, endAnchor = None, hasAttached = False, enabled = True,
       elementParent = None\<rparr>"
  let ?t1 = "(snd (attachAnchors ?t0))\<lparr>elementParent := Some ([Sibling 1], [Sibling 2])\<rparr>"
  have n0: "\<not> hasAttached ?t0 \<and> elementParent ?t0 = None" by simp
  have n1: "\<not> hasAttached ?t1 \<and> elementParent ?t1 \<noteq> None"
    by (simp add: attachAnchors_def Let_def)
  have e: "elementParent (snd (attachAnchors ?t1)) = Some ([Sibling 1, StartAnchor], [EndAnchor, Sibling 2])"
    by (simp add: attachAnchors_def Let_def insertBeforeElement_def insertBeforeNextSibling_def)
  show ?thesis
    using attachAnchors_contract[of ?t0 0] attachAnchors_contract[of ?t1 3] n0 n1 e
    by simp
qed

section \<open>Properties of ListKeyManager\<close>

lemmas keycodes = TAB_def END_def HOME_def LEFT_ARROW_def UP_ARROW_def RIGHT_ARROW_def
  DOWN_ARROW_def ZERO_def NINE_def A_KEY_def Z_KEY_def

subsection \<open>What setting the active item leaves alone\<close>

lemma updateActiveItem_frame:
  "items (updateActiveItem x s) = items s"
  "skipPredicateFn (updateActiveItem x s) = skipPredicateFn s"
  "pressedLetters (updateActiveItem x s) = pressedLetters s"
  "tabOut (updateActiveItem x s) = tabOut s"
  "change (updateActiveItem x s) = change s"
  by (simp_all add: updateActiveItem_def Let_def)

lemma setActiveItem_frame:
  "items (setActiveItem x s) = items s"
  "skipPredicateFn (setActiveItem x s) = skipPredicateFn s"
  "pressedLetters (setActiveItem x s) = pressedLetters s"
  "tabOut (setActiveItem x s) = tabOut s"
  by (simp_all add: setActiveItem_def updateActiveItem_def Let_def)

lemma setActiveItem_Index_active:
  "activeItem (setActiveItem (Index k) s) = itemAt (items s) k"
  "activeItemIndex (setActiveItem (Index k) s) = k"
  by (simp_all add: setActiveItem_def updateActiveItem_def Let_def)

lemma itemAt_Some_mem: "itemAt xs k = Some x \<Longrightarrow> x \<in> set xs"
  by (auto simp: itemAt_def split: if_splits)

lemma itemAt_Nil [simp]: "itemAt [] k = None"
  by (simp add: itemAt_def)

text \<open>The outcome of a navigation step: nothing changes, or a non-skipped item is activated.\<close>

lemma setActiveItemByIndex_outcome:
  "setActiveItemByIndex i d s = s \<or>
   (\<exists>k item. itemAt (items s) k = Some item \<and> \<not> skipPredicateFn s item \<and>
      setActiveItemByIndex i d s = setActiveItem (Index k) s)"
proof (induction i d s rule: setActiveItemByIndex.induct)
  case (1 index fallbackDelta s)
  show ?case
  proof (cases "itemAt (items s) index")
    case None
    then show ?thesis by (simp add: setActiveItemByIndex.simps)
  next
    case (Some item)
    show ?thesis
    proof (cases "skipPredicateFn s item")
      case True
      with Some 1 show ?thesis by (simp add: setActiveItemByIndex.simps[of index])
    next
      case False
      with Some show ?thesis by (auto simp: setActiveItemByIndex.simps[of index])
    qed
  qed
qed

lemma jsRem_nonneg: "0 \<le> a \<Longrightarrow> 0 < b \<Longrightarrow> jsRem a b = Some (a mod b)"
  by (cases "a = 0") (simp_all add: jsRem_def)

lemma itemAt_mod:
  "xs \<noteq> [] \<Longrightarrow> itemAt xs (a mod int (length xs)) = Some (xs ! nat (a mod int (length xs)))"
  by (simp add: itemAt_def)

lemma wrapLoop_outcome:
  assumes "\<forall>i \<in> set js. 0 \<le> activeItemIndex s + deltaInt d * int i + int (length (items s))"
    and "js \<noteq> [] \<longrightarrow> items s \<noteq> []"
  shows "wrapLoop d js s = Inr s \<or>
   (\<exists>k item. itemAt (items s) k = Some item \<and> \<not> skipPredicateFn s item \<and>
      wrapLoop d js s = Inr (setActiveItem (Index k) s))"
  using assms
proof (induction js)
  case Nil
  then show ?case by simp
next
  case (Cons i js)
  let ?a = "activeItemIndex s + deltaInt d * int i + int (length (items s))"
  have ne: "items s \<noteq> []" using Cons.prems by simp
  have a0: "0 \<le> ?a" using Cons.prems by simp
  have r: "jsRem ?a (int (length (items s))) = Some (?a mod int (length (items s)))"
    using a0 ne by (simp add: jsRem_nonneg)
  have it: "itemAt (items s) (?a mod int (length (items s))) =
      Some (items s ! nat (?a mod int (length (items s))))"
    using ne by (rule itemAt_mod)
  show ?case
  proof (cases "skipPredicateFn s (items s ! nat (?a mod int (length (items s))))")
    case True
    have "wrapLoop d (i # js) s = wrapLoop d js s" using r it True by simp
    moreover have "wrapLoop d js s = Inr s \<or>
       (\<exists>k item. itemAt (items s) k = Some item \<and> \<not> skipPredicateFn s item \<and>
          wrapLoop d js s = Inr (setActiveItem (Index k) s))"
      using Cons.IH Cons.prems ne by simp
    ultimately show ?thesis by simp
  next
    case False
    have "wrapLoop d (i # js) s = Inr (setActiveItem (Index (?a mod int (length (items s)))) s)"
      using r it False by simp
    with it False show ?thesis by blast
  qed
qed

lemma setActiveInWrapMode_outcome:
  assumes "d = DeltaPlus \<longrightarrow> 0 \<le> activeItemIndex s" "d = DeltaMinus \<longrightarrow> 0 \<le> activeItemIndex s"
  shows "setActiveInWrapMode d s = Inr s \<or>
   (\<exists>k item. itemAt (items s) k = Some item \<and> \<not> skipPredicateFn s item \<and>
      setActiveInWrapMode d s = Inr (setActiveItem (Index k) s))"
  unfolding setActiveInWrapMode_def
proof (rule wrapLoop_outcome)
  show "\<forall>i\<in>set [1..<Suc (length (items s))].
       0 \<le> activeItemIndex s + deltaInt d * int i + int (length (items s))"
    using assms by (cases d) auto
  show "[1..<Suc (length (items s))] \<noteq> [] \<longrightarrow> items s \<noteq> []" by auto
qed

lemma setNextItemActive_outcome:
  "setNextItemActive s = Inr s \<or>
   (\<exists>k item. itemAt (items s) k = Some item \<and> \<not> skipPredicateFn s item \<and>
      setNextItemActive s = Inr (setActiveItem (Index k) s))"
proof (cases "activeItemIndex s < 0")
  case True
  then show ?thesis
    using setActiveItemByIndex_outcome[of 0 DeltaPlus s]
    by (auto simp: setNextItemActive_def setFirstItemActive_def)
next
  case False
  show ?thesis
  proof (cases "wrap s")
    case True
    with False show ?thesis
      using setActiveInWrapMode_outcome[of DeltaPlus s]
      by (simp add: setNextItemActive_def setActiveItemByDelta_def)
  next
    case nw: False
    with False show ?thesis
      using setActiveItemByIndex_outcome[of "activeItemIndex s + 1" DeltaPlus s]
      by (auto simp: setNextItemActive_def setActiveItemByDelta_def setActiveInDefaultMode_def)
  qed
qed

lemma setPreviousItemActive_outcome:
  "setPreviousItemActive s = Inr s \<or>
   (\<exists>k item. itemAt (items s) k = Some item \<and> \<not> skipPredicateFn s item \<and>
      setPreviousItemActive s = Inr (setActiveItem (Index k) s))"
proof (cases "wrap s")
  case True
  show ?thesis
  proof (cases "activeItemIndex s < 0")
    case neg: True
    with True show ?thesis
      using setActiveItemByIndex_outcome[of "int (length (items s)) - 1" DeltaMinus s]
      by (auto simp: setPreviousItemActive_def setLastItemActive_def)
  next
    case False
    with True show ?thesis
      using setActiveInWrapMode_outcome[of DeltaMinus s]
      by (simp add: setPreviousItemActive_def setActiveItemByDelta_def)
  qed
next
  case False
  then show ?thesis
    using setActiveItemByIndex_outcome[of "activeItemIndex s + - 1" DeltaMinus s]
    by (auto simp: setPreviousItemActive_def setActiveItemByDelta_def setActiveInDefaultMode_def)
qed

lemma setFirstItemActive_outcome:
  "setFirstItemActive s = s \<or>
   (\<exists>k item. itemAt (items s) k = Some item \<and> \<not> skipPredicateFn s item \<and>
      setFirstItemActive s = setActiveItem (Index k) s)"
  unfolding setFirstItemActive_def by (rule setActiveItemByIndex_outcome)

lemma setLastItemActive_outcome:
  "setLastItemActive s = s \<or>
   (\<exists>k item. itemAt (items s) k = Some item \<and> \<not> skipPredicateFn s item \<and>
      setLastItemActive s = setActiveItem (Index k) s)"
  unfolding setLastItemActive_def by (rule setActiveItemByIndex_outcome)

subsection \<open>withTypeAhead\<close>

text \<open>
  Claim C9, as stated, at a concrete input: in production mode (\<open>ngDevMode\<close> is false) the
  collection holds an item without \<open>getLabel\<close>, yet \<open>withTypeAhead\<close> does not throw and
  configures typeahead; at this input the typeahead search then throws a \<open>TypeError\<close>.
\<close>

theorem withTypeAhead_production_mode_counterexample:
  "list_ex (\<lambda>item. getLabel item = None)
     (items (newListKeyManager [\<lparr>ident = 0, disabled = False, getLabel = None\<rparr>])) \<and>
   withTypeAhead (Some False) 200 (newListKeyManager [\<lparr>ident = 0, disabled = False, getLabel = None\<rparr>])
     = Inr ((newListKeyManager [\<lparr>ident = 0, disabled = False, getLabel = None\<rparr>])
              \<lparr>typeaheadSubscription := Some 200\<rparr>) \<and>
   typeaheadDebounceElapsed asciiMethods
     ((newListKeyManager [\<lparr>ident = 0, disabled = False, getLabel = None\<rparr>])
        \<lparr>typeaheadSubscription := Some 200, pressedLetters := [codeUnits ''A'']\<rparr>) = Inl TypeError"
  by (simp add: withTypeAhead_def newListKeyManager_def typeaheadDebounceElapsed_def
      typeaheadSubscriber_def jsRem_def itemAt_def)

text \<open>
  Claim C9, amended. In development mode (\<open>ngDevMode\<close> undefined or true), for every item
  collection with at least one item that does not implement \<open>getLabel\<close>, \<open>withTypeAhead\<close>
  throws an \<open>Error\<close>; the throw comes before any assignment, so nothing is configured. In
  every mode, for a collection whose items all implement \<open>getLabel\<close>, it does not throw and
  subscribes the typeahead with the given debounce interval. In production mode
  (\<open>ngDevMode\<close> false) it does so for every collection.
\<close>

theorem withTypeAhead_dev_mode_check:
  "(ngDevMode \<noteq> Some False \<and> (\<exists>item \<in> set (items s). getLabel item = None) \<longrightarrow>
      (\<exists>msg. withTypeAhead ngDevMode debounceInterval s = Inl (Error msg))) \<and>
   ((\<forall>item \<in> set (items s). getLabel item \<noteq> None) \<longrightarrow>
      withTypeAhead ngDevMode debounceInterval s =
        Inr (s\<lparr>typeaheadSubscription := Some debounceInterval\<rparr>)) \<and>
   withTypeAhead (Some False) debounceInterval s =
     Inr (s\<lparr>typeaheadSubscription := Some debounceInterval\<rparr>)"
proof -
  have a: "ngDevMode \<noteq> Some False \<and> (\<exists>item \<in> set (items s). getLabel item = None) \<longrightarrow>
      (\<exists>msg. withTypeAhead ngDevMode debounceInterval s = Inl (Error msg))"
  proof
    assume h: "ngDevMode \<noteq> Some False \<and> (\<exists>item \<in> set (items s). getLabel item = None)"
    then have dev: "ngDevMode = None \<or> ngDevMode = Some True" by (cases ngDevMode) auto
    from h have ex: "list_ex (\<lambda>item. getLabel item = None) (items s)"
      by (simp add: list_ex_iff)
    from h have ne: "items s \<noteq> []" by auto
    show "\<exists>msg. withTypeAhead ngDevMode debounceInterval s = Inl (Error msg)"
      using dev ex ne by (auto simp: withTypeAhead_def)
  qed
  have b: "(\<forall>item \<in> set (items s). getLabel item \<noteq> None) \<longrightarrow>
      withTypeAhead ngDevMode debounceInterval s =
        Inr (s\<lparr>typeaheadSubscription := Some debounceInterval\<rparr>)"
    by (simp add: withTypeAhead_def list_ex_iff)
  have c: "withTypeAhead (Some False) debounceInterval s =
     Inr (s\<lparr>typeaheadSubscription := Some debounceInterval\<rparr>)"
    by (simp add: withTypeAhead_def)
  from a b c show ?thesis by blast
qed

theorem withTypeAhead_dev_mode_check_witness:
  "(\<exists>msg. withTypeAhead None 200
      (newListKeyManager [\<lparr>ident = 0, disabled = False, getLabel = Some (codeUnits ''Apple'')\<rparr>,
                          \<lparr>ident = 1, disabled = False, getLabel = None\<rparr>]) = Inl (Error msg)) \<and>
   withTypeAhead (Some True) 200
      (newListKeyManager [\<lparr>ident = 0, disabled = False, getLabel = Some (codeUnits ''Apple'')\<rparr>])
     = Inr ((newListKeyManager [\<lparr>ident = 0, disabled = False, getLabel = Some (codeUnits ''Apple'')\<rparr>])
              \<lparr>typeaheadSubscription := Some 200\<rparr>) \<and>
   withTypeAhead (Some False) 200
      (newListKeyManager [\<lparr>ident = 0, disabled = False, getLabel = Some (codeUnits ''Apple'')\<rparr>,
                          \<lparr>ident = 1, disabled = False, getLabel = None\<rparr>])
     = Inr ((newListKeyManager [\<lparr>ident = 0, disabled = False, getLabel = Some (codeUnits ''Apple'')\<rparr>,
                          \<lparr>ident = 1, disabled = False, getLabel = None\<rparr>])
              \<lparr>typeaheadSubscription := Some 200\<rparr>)"
  using withTypeAhead_dev_mode_check[of None
      "newListKeyManager [\<lparr>ident = 0, disabled = False, getLabel = Some (codeUnits ''Apple'')\<rparr>,
                          \<lparr>ident = 1, disabled = False, getLabel = None\<rparr>]" 200]
    withTypeAhead_dev_mode_check[of "Some True"
      "newListKeyManager [\<lparr>ident = 0, disabled = False, getLabel = Some (codeUnits ''Apple'')\<rparr>]" 200]
  by (simp add: newListKeyManager_def)

subsection \<open>onKeydown\<close>

lemma afterSwitch_Inr: "afterSwitch (Inr s) = Inr (s\<lparr>pressedLetters := []\<rparr>, True)"
  by (simp add: afterSwitch_def)

lemma onKeydown_Tab:
  "keyCode event = TAB \<Longrightarrow> onKeydown sm event s = Inr (s\<lparr>tabOut := tabOut s + 1\<rparr>, False)"
  by (simp add: onKeydown_def)

lemma onKeydown_handled:
  assumes "handledNavigationKey event s"
  shows "\<exists>s0. (s0 = s \<or>
            (\<exists>k item. itemAt (items s) k = Some item \<and> \<not> skipPredicateFn s item \<and>
               s0 = setActiveItem (Index k) s)) \<and>
          onKeydown sm event s = Inr (s0\<lparr>pressedLetters := []\<rparr>, True)"
proof -
  let ?ok = "\<lambda>s0. s0 = s \<or>
            (\<exists>k item. itemAt (items s) k = Some item \<and> \<not> skipPredicateFn s item \<and>
               s0 = setActiveItem (Index k) s)"
  obtain n where n: "setNextItemActive s = Inr n" "?ok n"
    using setNextItemActive_outcome[of s] by auto
  obtain p where p: "setPreviousItemActive s = Inr p" "?ok p"
    using setPreviousItemActive_outcome[of s] by auto
  have f: "?ok (setFirstItemActive s)" using setFirstItemActive_outcome[of s] by auto
  have l: "?ok (setLastItemActive s)" using setLastItemActive_outcome[of s] by auto
  from assms have al: "isModifierAllowed event s" by (simp add: handledNavigationKey_def)
  from assms consider
      (down) "keyCode event = DOWN_ARROW" "vertical s"
    | (up) "keyCode event = UP_ARROW" "vertical s"
    | (right) "keyCode event = RIGHT_ARROW" "horizontal s \<noteq> None"
    | (left) "keyCode event = LEFT_ARROW" "horizontal s \<noteq> None"
    | (home) "keyCode event = HOME" "homeAndEnd s"
    | (endkey) "keyCode event = END" "homeAndEnd s"
    by (auto simp: handledNavigationKey_def)
  then show ?thesis
  proof cases
    case down
    with al n have "onKeydown sm event s = Inr (n\<lparr>pressedLetters := []\<rparr>, True)"
      by (simp add: onKeydown_def keycodes afterSwitch_Inr)
    with n(2) show ?thesis by blast
  next
    case up
    with al p have "onKeydown sm event s = Inr (p\<lparr>pressedLetters := []\<rparr>, True)"
      by (simp add: onKeydown_def keycodes afterSwitch_Inr)
    with p(2) show ?thesis by blast
  next
    case right
    show ?thesis
    proof (cases "horizontal s = Some Rtl")
      case True
      with right al p have "onKeydown sm event s = Inr (p\<lparr>pressedLetters := []\<rparr>, True)"
        by (simp add: onKeydown_def keycodes afterSwitch_Inr)
      with p(2) show ?thesis by blast
    next
      case False
      with right al n have "onKeydown sm event s = Inr (n\<lparr>pressedLetters := []\<rparr>, True)"
        by (simp add: onKeydown_def keycodes afterSwitch_Inr)
      with n(2) show ?thesis by blast
    qed
  next
    case left
    show ?thesis
    proof (cases "horizontal s = Some Rtl")
      case True
      with left al n have "onKeydown sm event s = Inr (n\<lparr>pressedLetters := []\<rparr>, True)"
        by (simp add: onKeydown_def keycodes afterSwitch_Inr)
      with n(2) show ?thesis by blast
    next
      case False
      with left al p have "onKeydown sm event s = Inr (p\<lparr>pressedLetters := []\<rparr>, True)"
        by (simp add: onKeydown_def keycodes afterSwitch_Inr)
      with p(2) show ?thesis by blast
    qed
  next
    case home
    with al have "onKeydown sm event s = Inr ((setFirstItemActive s)\<lparr>pressedLetters := []\<rparr>, True)"
      by (simp add: onKeydown_def keycodes afterSwitch_Inr)
    with f show ?thesis by blast
  next
    case endkey
    with al have "onKeydown sm event s = Inr ((setLastItemActive s)\<lparr>pressedLetters := []\<rparr>, True)"
      by (simp add: onKeydown_def keycodes afterSwitch_Inr)
    with l show ?thesis by blast
  qed
qed

lemma letterKeyStreamNext_frame:
  "activeItem (letterKeyStreamNext l s) = activeItem s"
  "activeItemIndex (letterKeyStreamNext l s) = activeItemIndex s"
  "change (letterKeyStreamNext l s) = change s"
  "tabOut (letterKeyStreamNext l s) = tabOut s"
  "items (letterKeyStreamNext l s) = items s"
  "skipPredicateFn (letterKeyStreamNext l s) = skipPredicateFn s"
  by (simp_all add: letterKeyStreamNext_def)

lemma onKeydown_other_key:
  assumes "keyCode event \<noteq> TAB" "keyCode event \<noteq> DOWN_ARROW" "keyCode event \<noteq> UP_ARROW"
    "keyCode event \<noteq> RIGHT_ARROW" "keyCode event \<noteq> LEFT_ARROW" "keyCode event \<noteq> HOME"
    "keyCode event \<noteq> END"
  shows "onKeydown sm event s = Inr (s, False) \<or>
     (\<exists>l. onKeydown sm event s = Inr (letterKeyStreamNext l s, False))"
proof -
  have eq: "onKeydown sm event s =
    (if isModifierAllowed event s \<or> shiftKey event
         then (if length (key event) = 1
               then Inr (letterKeyStreamNext (toLocaleUpperCase sm (key event)) s, False)
               else if (A_KEY \<le> keyCode event \<and> keyCode event \<le> Z_KEY) \<or>
                       (ZERO \<le> keyCode event \<and> keyCode event \<le> NINE)
               then Inr (letterKeyStreamNext (fromCharCode (keyCode event)) s, False)
               else Inr (s, False))
         else Inr (s, False))"
    using assms by (simp add: onKeydown_def Let_def)
  show ?thesis unfolding eq by auto
qed

lemma onKeydown_unhandled_result:
  assumes "keyCode event \<noteq> TAB" "\<not> handledNavigationKey event s"
  shows "onKeydown sm event s = Inr (s, False) \<or>
     (\<exists>l. onKeydown sm event s = Inr (letterKeyStreamNext l s, False))"
proof -
  consider (down) "keyCode event = DOWN_ARROW" | (up) "keyCode event = UP_ARROW"
    | (right) "keyCode event = RIGHT_ARROW" | (left) "keyCode event = LEFT_ARROW"
    | (home) "keyCode event = HOME" | (endkey) "keyCode event = END"
    | (other) "keyCode event \<noteq> DOWN_ARROW" "keyCode event \<noteq> UP_ARROW"
        "keyCode event \<noteq> RIGHT_ARROW" "keyCode event \<noteq> LEFT_ARROW" "keyCode event \<noteq> HOME"
        "keyCode event \<noteq> END"
    by blast
  then show ?thesis
  proof cases
    case down
    with assms have "\<not> (vertical s \<and> isModifierAllowed event s)"
      by (auto simp: handledNavigationKey_def)
    with down show ?thesis by (auto simp: onKeydown_def keycodes Let_def)
  next
    case up
    with assms have "\<not> (vertical s \<and> isModifierAllowed event s)"
      by (auto simp: handledNavigationKey_def)
    with up show ?thesis by (auto simp: onKeydown_def keycodes Let_def)
  next
    case right
    with assms have "\<not> (horizontal s \<noteq> None \<and> isModifierAllowed event s)"
      by (auto simp: handledNavigationKey_def)
    with right show ?thesis by (auto simp: onKeydown_def keycodes Let_def)
  next
    case left
    with assms have "\<not> (horizontal s \<noteq> None \<and> isModifierAllowed event s)"
      by (auto simp: handledNavigationKey_def)
    with left show ?thesis by (auto simp: onKeydown_def keycodes Let_def)
  next
    case home
    with assms have "\<not> (homeAndEnd s \<and> isModifierAllowed event s)"
      by (auto simp: handledNavigationKey_def)
    with home show ?thesis by (auto simp: onKeydown_def keycodes Let_def)
  next
    case endkey
    with assms have "\<not> (homeAndEnd s \<and> isModifierAllowed event s)"
      by (auto simp: handledNavigationKey_def)
    with endkey show ?thesis by (auto simp: onKeydown_def keycodes Let_def)
  next
    case other
    with assms(1) show ?thesis by (intro onKeydown_other_key)
  qed
qed

lemma onKeydown_unhandled:
  assumes "keyCode event \<noteq> TAB" "\<not> handledNavigationKey event s"
  shows "\<exists>s1. onKeydown sm event s = Inr (s1, False) \<and> activeItem s1 = activeItem s \<and>
     activeItemIndex s1 = activeItemIndex s \<and> change s1 = change s \<and> tabOut s1 = tabOut s \<and>
     items s1 = items s \<and> skipPredicateFn s1 = skipPredicateFn s"
  using onKeydown_unhandled_result[OF assms, of sm]
  by (auto simp: letterKeyStreamNext_frame)

text \<open>
  Claim C6, as stated, at a concrete input: Tab is a key the manager handles, and
  \<open>onKeydown\<close> returns without calling \<open>preventDefault()\<close> on it.
\<close>

theorem onKeydown_Tab_counterexample:
  "onKeydown asciiMethods \<lparr>keyCode = TAB, key = codeUnits ''Tab'', altKey = False, ctrlKey = False, metaKey = False,
       shiftKey = False\<rparr>
     (newListKeyManager [\<lparr>ident = 0, disabled = False, getLabel = Some (codeUnits ''Apple'')\<rparr>])
   = Inr ((newListKeyManager [\<lparr>ident = 0, disabled = False, getLabel = Some (codeUnits ''Apple'')\<rparr>])
            \<lparr>tabOut := 1\<rparr>, False)"
  by (simp add: onKeydown_def newListKeyManager_def)

text \<open>
  Claim C6, amended. A Tab keypress emits on the \<open>tabOut\<close> stream, changes nothing else
  and does not call \<open>preventDefault()\<close>. Every navigation key the manager handles (an arrow
  key under the configured orientation, Home or End when enabled, with no disallowed
  modifier held) returns normally with \<open>preventDefault()\<close> called. Every other key returns
  without calling \<open>preventDefault()\<close> and leaves the active item, the active index and both
  streams as they were.
\<close>

theorem onKeydown_consumes_navigation_keys:
  "(keyCode event = TAB \<longrightarrow>
      onKeydown sm event s = Inr (s\<lparr>tabOut := tabOut s + 1\<rparr>, False)) \<and>
   (handledNavigationKey event s \<longrightarrow> (\<exists>s1. onKeydown sm event s = Inr (s1, True))) \<and>
   (keyCode event \<noteq> TAB \<and> \<not> handledNavigationKey event s \<longrightarrow>
      (\<exists>s1. onKeydown sm event s = Inr (s1, False) \<and> activeItem s1 = activeItem s \<and>
         activeItemIndex s1 = activeItemIndex s \<and> change s1 = change s \<and>
         tabOut s1 = tabOut s))"
proof -
  have a: "keyCode event = TAB \<longrightarrow>
      onKeydown sm event s = Inr (s\<lparr>tabOut := tabOut s + 1\<rparr>, False)"
    by (simp add: onKeydown_Tab)
  have b: "handledNavigationKey event s \<longrightarrow> (\<exists>s1. onKeydown sm event s = Inr (s1, True))"
    using onKeydown_handled[of event s] by blast
  have c: "keyCode event \<noteq> TAB \<and> \<not> handledNavigationKey event s \<longrightarrow>
      (\<exists>s1. onKeydown sm event s = Inr (s1, False) \<and> activeItem s1 = activeItem s \<and>
         activeItemIndex s1 = activeItemIndex s \<and> change s1 = change s \<and>
         tabOut s1 = tabOut s)"
    using onKeydown_unhandled[of event s] by blast
  from a b c show ?thesis by blast
qed

theorem onKeydown_consumes_navigation_keys_witness:
  "onKeydown asciiMethods \<lparr>keyCode = TAB, key = codeUnits ''Tab'', altKey = False, ctrlKey = False, metaKey = False,
       shiftKey = False\<rparr> (newListKeyManager [])
     = Inr ((newListKeyManager [])\<lparr>tabOut := 1\<rparr>, False) \<and>
   (\<exists>s1. onKeydown asciiMethods \<lparr>keyCode = DOWN_ARROW, key = codeUnits ''ArrowDown'', altKey = False, ctrlKey = False,
       metaKey = False, shiftKey = False\<rparr> (newListKeyManager []) = Inr (s1, True)) \<and>
   (\<exists>s1. onKeydown asciiMethods \<lparr>keyCode = DOWN_ARROW, key = codeUnits ''ArrowDown'', altKey = False, ctrlKey = True,
       metaKey = False, shiftKey = False\<rparr> (newListKeyManager []) = Inr (s1, False)) \<and>
   (\<exists>s1. onKeydown asciiMethods \<lparr>keyCode = HOME, key = codeUnits ''Home'', altKey = False, ctrlKey = False,
       metaKey = False, shiftKey = False\<rparr> (newListKeyManager []) = Inr (s1, False))"
proof -
  let ?tab = "\<lparr>keyCode = TAB, key = codeUnits ''Tab'', altKey = False, ctrlKey = False, metaKey = False,
       shiftKey = False\<rparr>"
  let ?down = "\<lparr>keyCode = DOWN_ARROW, key = codeUnits ''ArrowDown'', altKey = False, ctrlKey = False,
       metaKey = False, shiftKey = False\<rparr>"
  let ?ctrlDown = "\<lparr>keyCode = DOWN_ARROW, key = codeUnits ''ArrowDown'', altKey = False, ctrlKey = True,
       metaKey = False, shiftKey = False\<rparr>"
  let ?home = "\<lparr>keyCode = HOME, key = codeUnits ''Home'', altKey = False, ctrlKey = False,
       metaKey = False, shiftKey = False\<rparr>"
  have h1: "handledNavigationKey ?down (newListKeyManager [])"
    by (simp add: handledNavigationKey_def isModifierAllowed_def newListKeyManager_def)
  have h2: "keyCode ?ctrlDown \<noteq> TAB \<and> \<not> handledNavigationKey ?ctrlDown (newListKeyManager [])"
    by (simp add: handledNavigationKey_def isModifierAllowed_def newListKeyManager_def keycodes)
  have h3: "keyCode ?home \<noteq> TAB \<and> \<not> handledNavigationKey ?home (newListKeyManager [])"
    by (simp add: handledNavigationKey_def isModifierAllowed_def newListKeyManager_def keycodes)
  have t: "tabOut (newListKeyManager []) + 1 = 1" by (simp add: newListKeyManager_def)
  show ?thesis
    using onKeydown_consumes_navigation_keys[of ?tab asciiMethods "newListKeyManager []"]
      onKeydown_consumes_navigation_keys[of ?down asciiMethods "newListKeyManager []"]
      onKeydown_consumes_navigation_keys[of ?ctrlDown asciiMethods "newListKeyManager []"]
      onKeydown_consumes_navigation_keys[of ?home asciiMethods "newListKeyManager []"]
      h1 h2 h3 t
    by auto
qed

subsection \<open>The empty collection\<close>

lemma setActiveItemByIndex_empty: "items s = [] \<Longrightarrow> setActiveItemByIndex i d s = s"
  by (simp add: setActiveItemByIndex.simps[of i])

lemma navigation_empty:
  assumes "items s = []"
  shows "setFirstItemActive s = s" "setLastItemActive s = s"
    "setNextItemActive s = Inr s" "setPreviousItemActive s = Inr s"
  using assms
  by (simp_all add: setFirstItemActive_def setLastItemActive_def setNextItemActive_def
      setPreviousItemActive_def setActiveItemByDelta_def setActiveInWrapMode_def
      setActiveInDefaultMode_def setActiveItemByIndex_empty)

lemma onKeydown_handled_empty:
  assumes "items s = []" "handledNavigationKey event s"
  shows "onKeydown sm event s = Inr (s\<lparr>pressedLetters := []\<rparr>, True)"
proof -
  obtain s0 where s0: "s0 = s \<or>
            (\<exists>k item. itemAt (items s) k = Some item \<and> \<not> skipPredicateFn s item \<and>
               s0 = setActiveItem (Index k) s)"
     and r: "onKeydown sm event s = Inr (s0\<lparr>pressedLetters := []\<rparr>, True)"
    using onKeydown_handled[OF assms(2)] by blast
  from s0 assms(1) have "s0 = s" by simp
  with r show ?thesis by simp
qed

lemma onKeydown_navigation_key_unhandled:
  assumes "keyCode event = DOWN_ARROW \<or> keyCode event = UP_ARROW \<or> keyCode event = RIGHT_ARROW \<or>
      keyCode event = LEFT_ARROW \<or> keyCode event = HOME \<or> keyCode event = END"
    and nh: "\<not> handledNavigationKey event s"
  shows "onKeydown sm event s = Inr (s, False)"
proof -
  from assms(1) consider (down) "keyCode event = DOWN_ARROW" | (up) "keyCode event = UP_ARROW"
    | (right) "keyCode event = RIGHT_ARROW" | (left) "keyCode event = LEFT_ARROW"
    | (home) "keyCode event = HOME" | (endkey) "keyCode event = END"
    by blast
  then show ?thesis
  proof cases
    case down
    with nh have "\<not> (vertical s \<and> isModifierAllowed event s)"
      by (auto simp: handledNavigationKey_def)
    with down show ?thesis by (auto simp: onKeydown_def keycodes Let_def)
  next
    case up
    with nh have "\<not> (vertical s \<and> isModifierAllowed event s)"
      by (auto simp: handledNavigationKey_def)
    with up show ?thesis by (auto simp: onKeydown_def keycodes Let_def)
  next
    case right
    with nh have "\<not> (horizontal s \<noteq> None \<and> isModifierAllowed event s)"
      by (auto simp: handledNavigationKey_def)
    with right show ?thesis by (auto simp: onKeydown_def keycodes Let_def)
  next
    case left
    with nh have "\<not> (horizontal s \<noteq> None \<and> isModifierAllowed event s)"
      by (auto simp: handledNavigationKey_def)
    with left show ?thesis by (auto simp: onKeydown_def keycodes Let_def)
  next
    case home
    with nh have "\<not> (homeAndEnd s \<and> isModifierAllowed event s)"
      by (auto simp: handledNavigationKey_def)
    with home show ?thesis by (auto simp: onKeydown_def keycodes Let_def)
  next
    case endkey
    with nh have "\<not> (homeAndEnd s \<and> isModifierAllowed event s)"
      by (auto simp: handledNavigationKey_def)
    with endkey show ?thesis by (auto simp: onKeydown_def keycodes Let_def)
  qed
qed

lemma codeUnits_length: "length (codeUnits str) = length str"
  by (simp add: codeUnits_def)

lemma ascii_toLocaleUpperCase_a:
  "toLocaleUpperCase asciiMethods (codeUnits ''a'') = codeUnits ''A''"
  by (simp add: asciiMethods_def codeUnits_def asciiUpperUnit_def)

text \<open>
  Claim C10, as stated, at a concrete input. Over an empty collection typeahead is
  configured and the key \<open>a\<close> is pressed, which buffers one letter; then ArrowDown is
  pressed. \<open>onKeydown\<close> returns normally, but it is not a no-op on the state: the buffer of
  pressed letters is cleared, which \<open>isTyping()\<close> observes.
\<close>

theorem empty_collection_onKeydown_clears_buffer_counterexample:
  "items (newListKeyManager []) = [] \<and>
   withTypeAhead None 200 (newListKeyManager [])
     = Inr ((newListKeyManager [])\<lparr>typeaheadSubscription := Some 200\<rparr>) \<and>
   onKeydown asciiMethods
       \<lparr>keyCode = 65, key = codeUnits ''a'', altKey = False, ctrlKey = False, metaKey = False,
        shiftKey = False\<rparr>
       ((newListKeyManager [])\<lparr>typeaheadSubscription := Some 200\<rparr>)
     = Inr ((newListKeyManager [])
              \<lparr>typeaheadSubscription := Some 200, pressedLetters := [codeUnits ''A'']\<rparr>, False) \<and>
   onKeydown asciiMethods
       \<lparr>keyCode = DOWN_ARROW, key = codeUnits ''ArrowDown'', altKey = False, ctrlKey = False,
        metaKey = False, shiftKey = False\<rparr>
       ((newListKeyManager [])
          \<lparr>typeaheadSubscription := Some 200, pressedLetters := [codeUnits ''A'']\<rparr>)
     = Inr ((newListKeyManager [])
              \<lparr>typeaheadSubscription := Some 200, pressedLetters := []\<rparr>, True) \<and>
   (newListKeyManager [])\<lparr>typeaheadSubscription := Some 200, pressedLetters := []\<rparr>
     \<noteq> (newListKeyManager [])
         \<lparr>typeaheadSubscription := Some 200, pressedLetters := [codeUnits ''A'']\<rparr>"
proof -
  have a: "withTypeAhead None 200 (newListKeyManager [])
     = Inr ((newListKeyManager [])\<lparr>typeaheadSubscription := Some 200\<rparr>)"
    by (simp add: withTypeAhead_def newListKeyManager_def)
  have b: "onKeydown asciiMethods
       \<lparr>keyCode = 65, key = codeUnits ''a'', altKey = False, ctrlKey = False, metaKey = False,
        shiftKey = False\<rparr>
       ((newListKeyManager [])\<lparr>typeaheadSubscription := Some 200\<rparr>)
     = Inr ((newListKeyManager [])
              \<lparr>typeaheadSubscription := Some 200, pressedLetters := [codeUnits ''A'']\<rparr>, False)"
    by (simp add: onKeydown_def keycodes isModifierAllowed_def letterKeyStreamNext_def
        newListKeyManager_def codeUnits_length ascii_toLocaleUpperCase_a)
  have c: "onKeydown asciiMethods
       \<lparr>keyCode = DOWN_ARROW, key = codeUnits ''ArrowDown'', altKey = False, ctrlKey = False,
        metaKey = False, shiftKey = False\<rparr>
       ((newListKeyManager [])
          \<lparr>typeaheadSubscription := Some 200, pressedLetters := [codeUnits ''A'']\<rparr>)
     = Inr ((newListKeyManager [])
              \<lparr>typeaheadSubscription := Some 200, pressedLetters := []\<rparr>, True)"
    by (simp add: onKeydown_def keycodes isModifierAllowed_def newListKeyManager_def
        afterSwitch_def setNextItemActive_def setFirstItemActive_def setActiveItemByIndex_empty)
  have d: "(newListKeyManager [])\<lparr>typeaheadSubscription := Some 200, pressedLetters := []\<rparr>
     \<noteq> (newListKeyManager [])
         \<lparr>typeaheadSubscription := Some 200, pressedLetters := [codeUnits ''A'']\<rparr>"
    by (simp add: newListKeyManager_def)
  have e: "items (newListKeyManager []) = []" by (simp add: newListKeyManager_def)
  from a b c d e show ?thesis by (intro conjI)
qed

text \<open>
  Claim C10, amended. On an empty item collection, in wrap and in non-wrap mode,
  \<open>setFirstItemActive\<close>, \<open>setLastItemActive\<close>, \<open>setNextItemActive\<close> and
  \<open>setPreviousItemActive\<close> never throw and are no-ops on the state. \<open>onKeydown\<close> with an
  arrow, Home or End key never throws; when the manager handles the key it calls
  \<open>preventDefault()\<close> and clears the buffer of pressed letters, changing nothing else, and
  when it does not handle the key it is a no-op on the state. So an active index of \<open>-1\<close>
  and an active item of \<open>null\<close> stay so, and nothing is emitted on the \<open>change\<close> stream.
\<close>

theorem empty_collection_navigation_noop:
  "(items s = [] \<longrightarrow>
      setFirstItemActive s = s \<and> setLastItemActive s = s \<and>
      setNextItemActive s = Inr s \<and> setPreviousItemActive s = Inr s \<and>
      (handledNavigationKey event s \<longrightarrow>
         onKeydown sm event s = Inr (s\<lparr>pressedLetters := []\<rparr>, True)) \<and>
      ((keyCode event = DOWN_ARROW \<or> keyCode event = UP_ARROW \<or> keyCode event = RIGHT_ARROW \<or>
        keyCode event = LEFT_ARROW \<or> keyCode event = HOME \<or> keyCode event = END) \<and>
       \<not> handledNavigationKey event s \<longrightarrow>
         onKeydown sm event s = Inr (s, False))) \<and>
   (items s = [] \<and> activeItemIndex s = -1 \<and> activeItem s = None \<and>
    (keyCode event = DOWN_ARROW \<or> keyCode event = UP_ARROW \<or> keyCode event = RIGHT_ARROW \<or>
     keyCode event = LEFT_ARROW \<or> keyCode event = HOME \<or> keyCode event = END) \<longrightarrow>
      (\<exists>s1 p. onKeydown sm event s = Inr (s1, p) \<and> items s1 = [] \<and> activeItemIndex s1 = -1 \<and>
         activeItem s1 = None \<and> change s1 = change s \<and> wrap s1 = wrap s))"
proof -
  have a: "items s = [] \<longrightarrow>
      setFirstItemActive s = s \<and> setLastItemActive s = s \<and>
      setNextItemActive s = Inr s \<and> setPreviousItemActive s = Inr s \<and>
      (handledNavigationKey event s \<longrightarrow>
         onKeydown sm event s = Inr (s\<lparr>pressedLetters := []\<rparr>, True)) \<and>
      ((keyCode event = DOWN_ARROW \<or> keyCode event = UP_ARROW \<or> keyCode event = RIGHT_ARROW \<or>
        keyCode event = LEFT_ARROW \<or> keyCode event = HOME \<or> keyCode event = END) \<and>
       \<not> handledNavigationKey event s \<longrightarrow>
         onKeydown sm event s = Inr (s, False))"
    using navigation_empty[of s] onKeydown_handled_empty[of s event]
      onKeydown_navigation_key_unhandled[of event s]
    by blast
  have b: "items s = [] \<and> activeItemIndex s = -1 \<and> activeItem s = None \<and>
    (keyCode event = DOWN_ARROW \<or> keyCode event = UP_ARROW \<or> keyCode event = RIGHT_ARROW \<or>
     keyCode event = LEFT_ARROW \<or> keyCode event = HOME \<or> keyCode event = END) \<longrightarrow>
      (\<exists>s1 p. onKeydown sm event s = Inr (s1, p) \<and> items s1 = [] \<and> activeItemIndex s1 = -1 \<and>
         activeItem s1 = None \<and> change s1 = change s \<and> wrap s1 = wrap s)"
  proof
    assume h: "items s = [] \<and> activeItemIndex s = -1 \<and> activeItem s = None \<and>
    (keyCode event = DOWN_ARROW \<or> keyCode event = UP_ARROW \<or> keyCode event = RIGHT_ARROW \<or>
     keyCode event = LEFT_ARROW \<or> keyCode event = HOME \<or> keyCode event = END)"
    show "\<exists>s1 p. onKeydown sm event s = Inr (s1, p) \<and> items s1 = [] \<and> activeItemIndex s1 = -1 \<and>
         activeItem s1 = None \<and> change s1 = change s \<and> wrap s1 = wrap s"
    proof (cases "handledNavigationKey event s")
      case True
      with h have "onKeydown sm event s = Inr (s\<lparr>pressedLetters := []\<rparr>, True)"
        by (simp add: onKeydown_handled_empty)
      with h show ?thesis
        by (intro exI[of _ "s\<lparr>pressedLetters := []\<rparr>"] exI[of _ True]) simp
    next
      case False
      with h have "onKeydown sm event s = Inr (s, False)"
        by (intro onKeydown_navigation_key_unhandled) auto
      with h show ?thesis
        by (intro exI[of _ s] exI[of _ False]) simp
    qed
  qed
  from a b show ?thesis by blast
qed

theorem empty_collection_navigation_noop_witness:
  "setFirstItemActive ((newListKeyManager [])\<lparr>wrap := True\<rparr>) = (newListKeyManager [])\<lparr>wrap := True\<rparr> \<and>
   setLastItemActive ((newListKeyManager [])\<lparr>wrap := True\<rparr>) = (newListKeyManager [])\<lparr>wrap := True\<rparr> \<and>
   setNextItemActive ((newListKeyManager [])\<lparr>wrap := True\<rparr>) = Inr ((newListKeyManager [])\<lparr>wrap := True\<rparr>) \<and>
   setPreviousItemActive ((newListKeyManager [])\<lparr>wrap := True\<rparr>) = Inr ((newListKeyManager [])\<lparr>wrap := True\<rparr>) \<and>
   setPreviousItemActive (newListKeyManager []) = Inr (newListKeyManager []) \<and>
   onKeydown asciiMethods \<lparr>keyCode = UP_ARROW, key = codeUnits ''ArrowUp'', altKey = False,
       ctrlKey = False, metaKey = False, shiftKey = False\<rparr>
       ((newListKeyManager [])\<lparr>wrap := True, typeaheadSubscription := Some 200,
          pressedLetters := [codeUnits ''A'']\<rparr>)
     = Inr ((newListKeyManager [])\<lparr>wrap := True, typeaheadSubscription := Some 200,
          pressedLetters := []\<rparr>, True) \<and>
   onKeydown asciiMethods \<lparr>keyCode = END, key = codeUnits ''End'', altKey = False,
       ctrlKey = False, metaKey = False, shiftKey = False\<rparr> (newListKeyManager [])
     = Inr (newListKeyManager [], False) \<and>
   (\<exists>s1 p. onKeydown asciiMethods \<lparr>keyCode = UP_ARROW, key = codeUnits ''ArrowUp'',
       altKey = False, ctrlKey = False, metaKey = False, shiftKey = False\<rparr>
       ((newListKeyManager [])\<lparr>wrap := True, typeaheadSubscription := Some 200,
          pressedLetters := [codeUnits ''A'']\<rparr>) = Inr (s1, p) \<and>
      activeItemIndex s1 = -1 \<and> activeItem s1 = None)"
proof -
  let ?up = "\<lparr>keyCode = UP_ARROW, key = codeUnits ''ArrowUp'', altKey = False,
       ctrlKey = False, metaKey = False, shiftKey = False\<rparr>"
  let ?end = "\<lparr>keyCode = END, key = codeUnits ''End'', altKey = False,
       ctrlKey = False, metaKey = False, shiftKey = False\<rparr>"
  let ?w = "(newListKeyManager [])\<lparr>wrap := True\<rparr>"
  let ?t = "(newListKeyManager [])\<lparr>wrap := True, typeaheadSubscription := Some 200,
          pressedLetters := [codeUnits ''A'']\<rparr>"
  have e1: "items ?w = []" and e2: "items (newListKeyManager []) = []" and e3: "items ?t = []"
    by (simp_all add: newListKeyManager_def)
  have a3: "activeItemIndex ?t = -1 \<and> activeItem ?t = None"
    by (simp add: newListKeyManager_def)
  have k3: "keyCode ?up = UP_ARROW" by simp
  have h1: "handledNavigationKey ?up ?t"
    by (simp add: handledNavigationKey_def isModifierAllowed_def newListKeyManager_def)
  have h2: "\<not> handledNavigationKey ?end (newListKeyManager [])"
    by (simp add: handledNavigationKey_def isModifierAllowed_def newListKeyManager_def keycodes)
  have k2: "keyCode ?end = END" by simp
  have p: "?t\<lparr>pressedLetters := []\<rparr> = (newListKeyManager [])\<lparr>wrap := True,
      typeaheadSubscription := Some 200, pressedLetters := []\<rparr>"
    by (simp add: newListKeyManager_def)
  have r1: "setFirstItemActive ?w = ?w \<and> setLastItemActive ?w = ?w \<and>
      setNextItemActive ?w = Inr ?w \<and> setPreviousItemActive ?w = Inr ?w"
    using empty_collection_navigation_noop[of ?w ?up asciiMethods] e1 by blast
  have r2: "setPreviousItemActive (newListKeyManager []) = Inr (newListKeyManager []) \<and>
      onKeydown asciiMethods ?end (newListKeyManager []) = Inr (newListKeyManager [], False)"
    using empty_collection_navigation_noop[of "newListKeyManager []" ?end asciiMethods] e2 h2 k2
    by blast
  have r3: "onKeydown asciiMethods ?up ?t = Inr (?t\<lparr>pressedLetters := []\<rparr>, True)"
    using empty_collection_navigation_noop[of ?t ?up asciiMethods] e3 h1 by blast
  have r4: "\<exists>s1 p. onKeydown asciiMethods ?up ?t = Inr (s1, p) \<and>
      activeItemIndex s1 = -1 \<and> activeItem s1 = None"
    using empty_collection_navigation_noop[of ?t ?up asciiMethods] e3 a3 k3 by blast
  from r1 r2 r3 r4 p show ?thesis by simp
qed

subsection \<open>The active item invariant\<close>

lemma activeItemInv_outcome:
  assumes "activeItemInv s"
    and "s0 = s \<or> (\<exists>k item. itemAt (items s) k = Some item \<and> \<not> skipPredicateFn s item \<and>
               s0 = setActiveItem (Index k) s)"
  shows "activeItemInv s0"
  using assms
  by (auto simp: activeItemInv_def setActiveItem_frame setActiveItem_Index_active
      dest: itemAt_Some_mem)

lemma activeItemInv_pressedLetters:
  "activeItemInv (s\<lparr>pressedLetters := x\<rparr>) = activeItemInv s"
  by (simp add: activeItemInv_def split: option.split)

lemma activeItemInv_tabOut:
  "activeItemInv (s\<lparr>tabOut := x\<rparr>) = activeItemInv s"
  by (simp add: activeItemInv_def split: option.split)

lemma activeItemInv_letterKeyStreamNext:
  "activeItemInv (letterKeyStreamNext l s) = activeItemInv s"
  by (simp add: activeItemInv_def letterKeyStreamNext_def split: option.split)

lemma typeaheadLoop_outcome:
  "typeaheadLoop sm inp js s = Inr s0 \<Longrightarrow>
     s0 = s \<or> (\<exists>k item. itemAt (items s) k = Some item \<and> \<not> skipPredicateFn s item \<and>
               s0 = setActiveItem (Index k) s)"
proof (induction js)
  case Nil
  then show ?case by simp
next
  case (Cons i js)
  from Cons.prems obtain index where r: "jsRem (activeItemIndex s + int i) (int (length (items s))) = Some index"
    by (cases "jsRem (activeItemIndex s + int i) (int (length (items s)))") auto
  from Cons.prems r obtain item where it: "itemAt (items s) index = Some item"
    by (cases "itemAt (items s) index") auto
  show ?case
  proof (cases "skipPredicateFn s item")
    case True
    with Cons.prems r it have "typeaheadLoop sm inp js s = Inr s0" by simp
    then show ?thesis by (rule Cons.IH)
  next
    case False
    from Cons.prems r it False obtain label where l: "getLabel item = Some label"
      by (cases "getLabel item") auto
    show ?thesis
    proof (cases "labelMatches sm label inp")
      case True
      with Cons.prems r it False l have "s0 = setActiveItem (Index index) s" by simp
      with it False show ?thesis by blast
    next
      case nm: False
      with Cons.prems r it False l have "typeaheadLoop sm inp js s = Inr s0" by simp
      then show ?thesis by (rule Cons.IH)
    qed
  qed
qed

lemma typeaheadDebounceElapsed_inv:
  assumes "activeItemInv s" "typeaheadDebounceElapsed sm s = Inr s1"
  shows "activeItemInv s1"
proof (cases "typeaheadSubscription s = None \<or> pressedLetters s = []")
  case True
  with assms show ?thesis by (auto simp: typeaheadDebounceElapsed_def split: if_splits)
next
  case False
  with assms(2) have sub: "typeaheadSubscriber sm (concat (pressedLetters s)) s = Inr s1"
    by (auto simp: typeaheadDebounceElapsed_def split: if_splits)
  then obtain s0 where s0: "typeaheadLoop sm (concat (pressedLetters s)) [1..<length (items s) + 1] s = Inr s0"
    and e: "s1 = s0\<lparr>pressedLetters := []\<rparr>"
    by (auto simp: typeaheadSubscriber_def split: sum.splits)
  from typeaheadLoop_outcome[OF s0] assms(1) have "activeItemInv s0"
    by (intro activeItemInv_outcome[of s s0]) 
  with e show ?thesis by (simp add: activeItemInv_pressedLetters)
qed

lemma onKeydown_inv:
  assumes "activeItemInv s"
  shows "\<exists>s1 p. onKeydown sm event s = Inr (s1, p) \<and> activeItemInv s1"
proof (cases "keyCode event = TAB")
  case True
  then have "onKeydown sm event s = Inr (s\<lparr>tabOut := tabOut s + 1\<rparr>, False)" by (rule onKeydown_Tab)
  moreover have "activeItemInv (s\<lparr>tabOut := tabOut s + 1\<rparr>)"
    using assms by (simp add: activeItemInv_tabOut)
  ultimately show ?thesis by blast
next
  case nt: False
  show ?thesis
  proof (cases "handledNavigationKey event s")
    case True
    then obtain s0 where o: "s0 = s \<or>
            (\<exists>k item. itemAt (items s) k = Some item \<and> \<not> skipPredicateFn s item \<and>
               s0 = setActiveItem (Index k) s)"
      and r: "onKeydown sm event s = Inr (s0\<lparr>pressedLetters := []\<rparr>, True)"
      using onKeydown_handled[of event s] by blast
    have "activeItemInv s0" using assms o by (rule activeItemInv_outcome)
    then have "activeItemInv (s0\<lparr>pressedLetters := []\<rparr>)" by (simp add: activeItemInv_pressedLetters)
    with r show ?thesis by blast
  next
    case False
    from onKeydown_unhandled_result[OF nt False] show ?thesis
    proof
      assume "onKeydown sm event s = Inr (s, False)"
      with assms show ?thesis by blast
    next
      assume "\<exists>l. onKeydown sm event s = Inr (letterKeyStreamNext l s, False)"
      then obtain l where "onKeydown sm event s = Inr (letterKeyStreamNext l s, False)" by blast
      moreover have "activeItemInv (letterKeyStreamNext l s)"
        using assms by (simp add: activeItemInv_letterKeyStreamNext)
      ultimately show ?thesis by blast
    qed
  qed
qed

lemma updateActiveItem_member:
  "activeItem (updateActiveItem x s) = None \<or>
   (\<exists>item. activeItem (updateActiveItem x s) = Some item \<and> item \<in> set (items (updateActiveItem x s)))"
  by (cases x) (auto simp: updateActiveItem_def Let_def itemAt_def)

lemma setActiveItem_member:
  "activeItem (setActiveItem x s) = None \<or>
   (\<exists>item. activeItem (setActiveItem x s) = Some item \<and> item \<in> set (items (setActiveItem x s)))"
proof -
  have "activeItem (setActiveItem x s) = activeItem (updateActiveItem x s)"
    by (simp add: setActiveItem_def Let_def)
  moreover have "items (setActiveItem x s) = items (updateActiveItem x s)"
    by (simp add: setActiveItem_frame updateActiveItem_frame)
  ultimately show ?thesis using updateActiveItem_member[of x s] by simp
qed

text \<open>
  Claim C7, as stated, at a concrete input: \<open>setActiveItem(0)\<close> on a collection whose
  first item is disabled makes that disabled item the active item.
\<close>

theorem setActiveItem_disabled_counterexample:
  "activeItemInv (newListKeyManager [\<lparr>ident = 0, disabled = True, getLabel = Some (codeUnits ''Apple'')\<rparr>]) \<and>
   activeItem (setActiveItem (Index 0)
       (newListKeyManager [\<lparr>ident = 0, disabled = True, getLabel = Some (codeUnits ''Apple'')\<rparr>]))
     = Some \<lparr>ident = 0, disabled = True, getLabel = Some (codeUnits ''Apple'')\<rparr> \<and>
   \<not> activeItemInv (setActiveItem (Index 0)
       (newListKeyManager [\<lparr>ident = 0, disabled = True, getLabel = Some (codeUnits ''Apple'')\<rparr>])) \<and>
   \<not> activeItemInv (updateActiveItem (Index 0)
       (newListKeyManager [\<lparr>ident = 0, disabled = True, getLabel = Some (codeUnits ''Apple'')\<rparr>]))"
  by (simp add: activeItemInv_def newListKeyManager_def setActiveItem_def updateActiveItem_def
      Let_def itemAt_def)

text \<open>
  Claim C7, amended. If the active item is \<open>null\<close> or a non-skipped member of the item
  collection, it is so again after \<open>setFirstItemActive\<close>, \<open>setLastItemActive\<close>,
  \<open>setNextItemActive\<close>, \<open>setPreviousItemActive\<close>, \<open>onKeydown\<close> (which all return normally)
  and after a typeahead activation. After \<open>setActiveItem\<close> and \<open>updateActiveItem\<close> the active
  item is \<open>null\<close> or a member of the item collection, skipped or not.
\<close>

theorem navigation_keeps_active_item_valid:
  "(activeItemInv s \<longrightarrow>
      activeItemInv (setFirstItemActive s) \<and>
      activeItemInv (setLastItemActive s) \<and>
      (\<exists>s1. setNextItemActive s = Inr s1 \<and> activeItemInv s1) \<and>
      (\<exists>s1. setPreviousItemActive s = Inr s1 \<and> activeItemInv s1) \<and>
      (\<exists>s1 p. onKeydown sm event s = Inr (s1, p) \<and> activeItemInv s1) \<and>
      (\<forall>s1. typeaheadDebounceElapsed sm s = Inr s1 \<longrightarrow> activeItemInv s1)) \<and>
   (activeItem (setActiveItem x s) = None \<or>
      (\<exists>item. activeItem (setActiveItem x s) = Some item \<and>
         item \<in> set (items (setActiveItem x s)))) \<and>
   (activeItem (updateActiveItem x s) = None \<or>
      (\<exists>item. activeItem (updateActiveItem x s) = Some item \<and>
         item \<in> set (items (updateActiveItem x s))))"
proof -
  have nav: "activeItemInv s \<longrightarrow>
      activeItemInv (setFirstItemActive s) \<and>
      activeItemInv (setLastItemActive s) \<and>
      (\<exists>s1. setNextItemActive s = Inr s1 \<and> activeItemInv s1) \<and>
      (\<exists>s1. setPreviousItemActive s = Inr s1 \<and> activeItemInv s1) \<and>
      (\<exists>s1 p. onKeydown sm event s = Inr (s1, p) \<and> activeItemInv s1) \<and>
      (\<forall>s1. typeaheadDebounceElapsed sm s = Inr s1 \<longrightarrow> activeItemInv s1)"
  proof
    assume inv: "activeItemInv s"
    have f: "activeItemInv (setFirstItemActive s)"
      using inv setFirstItemActive_outcome[of s] by (rule activeItemInv_outcome)
    have l: "activeItemInv (setLastItemActive s)"
      using inv setLastItemActive_outcome[of s] by (rule activeItemInv_outcome)
    have n: "\<exists>s1. setNextItemActive s = Inr s1 \<and> activeItemInv s1"
    proof -
      from setNextItemActive_outcome[of s] obtain s1 where e: "setNextItemActive s = Inr s1"
        and o: "s1 = s \<or> (\<exists>k item. itemAt (items s) k = Some item \<and> \<not> skipPredicateFn s item \<and>
               s1 = setActiveItem (Index k) s)" by auto
      from inv o have "activeItemInv s1" by (rule activeItemInv_outcome)
      with e show ?thesis by blast
    qed
    have p: "\<exists>s1. setPreviousItemActive s = Inr s1 \<and> activeItemInv s1"
    proof -
      from setPreviousItemActive_outcome[of s] obtain s1 where e: "setPreviousItemActive s = Inr s1"
        and o: "s1 = s \<or> (\<exists>k item. itemAt (items s) k = Some item \<and> \<not> skipPredicateFn s item \<and>
               s1 = setActiveItem (Index k) s)" by auto
      from inv o have "activeItemInv s1" by (rule activeItemInv_outcome)
      with e show ?thesis by blast
    qed
    have k: "\<exists>s1 p. onKeydown sm event s = Inr (s1, p) \<and> activeItemInv s1"
      using inv by (rule onKeydown_inv)
    have t: "\<forall>s1. typeaheadDebounceElapsed sm s = Inr s1 \<longrightarrow> activeItemInv s1"
      using inv typeaheadDebounceElapsed_inv by blast
    from f l n p k t show "activeItemInv (setFirstItemActive s) \<and>
      activeItemInv (setLastItemActive s) \<and>
      (\<exists>s1. setNextItemActive s = Inr s1 \<and> activeItemInv s1) \<and>
      (\<exists>s1. setPreviousItemActive s = Inr s1 \<and> activeItemInv s1) \<and>
      (\<exists>s1 p. onKeydown sm event s = Inr (s1, p) \<and> activeItemInv s1) \<and>
      (\<forall>s1. typeaheadDebounceElapsed sm s = Inr s1 \<longrightarrow> activeItemInv s1)" by blast
  qed
  from nav setActiveItem_member[of x s] updateActiveItem_member[of x s] show ?thesis by blast
qed

theorem navigation_keeps_active_item_valid_witness:
  "activeItemInv (newListKeyManager [\<lparr>ident = 0, disabled = True, getLabel = Some (codeUnits ''Banana'')\<rparr>,
       \<lparr>ident = 1, disabled = False, getLabel = Some (codeUnits ''Apple'')\<rparr>]) \<and>
   activeItemInv (setFirstItemActive (newListKeyManager
      [\<lparr>ident = 0, disabled = True, getLabel = Some (codeUnits ''Banana'')\<rparr>,
       \<lparr>ident = 1, disabled = False, getLabel = Some (codeUnits ''Apple'')\<rparr>])) \<and>
   activeItem (setFirstItemActive (newListKeyManager
      [\<lparr>ident = 0, disabled = True, getLabel = Some (codeUnits ''Banana'')\<rparr>,
       \<lparr>ident = 1, disabled = False, getLabel = Some (codeUnits ''Apple'')\<rparr>]))
     = Some \<lparr>ident = 1, disabled = False, getLabel = Some (codeUnits ''Apple'')\<rparr> \<and>
   (\<exists>s1. setNextItemActive (newListKeyManager
      [\<lparr>ident = 0, disabled = True, getLabel = Some (codeUnits ''Banana'')\<rparr>,
       \<lparr>ident = 1, disabled = False, getLabel = Some (codeUnits ''Apple'')\<rparr>]) = Inr s1 \<and> activeItemInv s1) \<and>
   activeItem (updateActiveItem (Index 0) (newListKeyManager
      [\<lparr>ident = 0, disabled = True, getLabel = Some (codeUnits ''Banana'')\<rparr>,
       \<lparr>ident = 1, disabled = False, getLabel = Some (codeUnits ''Apple'')\<rparr>]))
     = Some \<lparr>ident = 0, disabled = True, getLabel = Some (codeUnits ''Banana'')\<rparr>"
proof -
  let ?s = "newListKeyManager [\<lparr>ident = 0, disabled = True, getLabel = Some (codeUnits ''Banana'')\<rparr>,
       \<lparr>ident = 1, disabled = False, getLabel = Some (codeUnits ''Apple'')\<rparr>]"
  have i: "activeItemInv ?s" by (simp add: activeItemInv_def newListKeyManager_def)
  have f: "activeItem (setFirstItemActive ?s) = Some \<lparr>ident = 1, disabled = False, getLabel = Some (codeUnits ''Apple'')\<rparr>"
    by (simp add: setFirstItemActive_def setActiveItemByIndex.simps newListKeyManager_def
        itemAt_def setActiveItem_def updateActiveItem_def Let_def)
  have u: "activeItem (updateActiveItem (Index 0) ?s)
     = Some \<lparr>ident = 0, disabled = True, getLabel = Some (codeUnits ''Banana'')\<rparr>"
    by (simp add: newListKeyManager_def itemAt_def updateActiveItem_def Let_def)
  show ?thesis
    using navigation_keeps_active_item_valid[of ?s _ _ "Index 0"] i f u
    by blast
qed

subsection \<open>The typeahead search\<close>


















end
